theory Spec2Isabelle
  imports Main "HOL-Library.Sublist" "HOL-Library.Word"
begin

section \<open>C strings and the library calls the drivers use\<close>

text \<open>
  A NUL-terminated C string is the list of its bytes before the terminator; a pointer
  into a string (the result of \<^verbatim>\<open>strstr\<close> or \<^verbatim>\<open>strchr\<close>) is the suffix that
  starts at that position, and a NULL result is \<open>None\<close>.
\<close>

fun dec_digits :: "nat \<Rightarrow> string" where
  "dec_digits n =
     (if n < 10 then [''0123456789'' ! n]
      else dec_digits (n div 10) @ [''0123456789'' ! (n mod 10)])"

declare dec_digits.simps [simp del]

definition sprintf_d :: "int \<Rightarrow> string" where
  \<comment> \<open>the conversion \<^verbatim>\<open>%d\<close> of \<^verbatim>\<open>sprintf\<close>\<close>
  "sprintf_d i = (if i < 0 then CHR ''-'' # dec_digits (nat (- i)) else dec_digits (nat i))"

fun strstr :: "string \<Rightarrow> string \<Rightarrow> string option" where
  "strstr [] needle = (if needle = [] then Some [] else None)"
| "strstr (c # cs) needle =
     (if prefix needle (c # cs) then Some (c # cs) else strstr cs needle)"

fun strchr :: "string \<Rightarrow> char \<Rightarrow> string option" where
  "strchr [] ch = None"
| "strchr (c # cs) ch = (if c = ch then Some (c # cs) else strchr cs ch)"

section \<open>The aggregation routine \<^verbatim>\<open>convert_round1_to_messages\<close>\<close>

text \<open>
  \<^verbatim>\<open>sprintf(target_key, "\"%d\":", target_party)\<close>. The C buffer is
  \<^verbatim>\<open>char target_key[10]\<close>, so the call is defined for party numbers of at most six
  characters; the drivers use 1, 2 and 3.
\<close>

definition target_key :: "int \<Rightarrow> string" where
  \<open>target_key target_party = ''"'' @ sprintf_d target_party @ ''":''\<close>

text \<open>
  The \<^verbatim>\<open>do { ... } while (brace_count > 0 && *msg_end)\<close> loop. The first argument is
  the string at \<^verbatim>\<open>msg_end\<close>, the third the distance \<^verbatim>\<open>msg_end - msg_start\<close>. The loop
  is entered at a \<^verbatim>\<open>'{'\<close> found by \<^verbatim>\<open>strchr\<close>, so the first equation is never reached
  from the routine.
\<close>

fun brace_scan :: "string \<Rightarrow> int \<Rightarrow> nat \<Rightarrow> int \<times> nat" where
  "brace_scan [] brace_count n = (brace_count, n)"
| "brace_scan (c # cs) brace_count n =
     (let brace_count' =
            (if c = CHR ''{'' then brace_count + 1
             else if c = CHR ''}'' then brace_count - 1
             else brace_count)
      in if brace_count' > 0 \<and> cs \<noteq> [] then brace_scan cs brace_count' (Suc n)
         else (brace_count', Suc n))"

text \<open>
  The part of the loop body that locates one sender's message: \<open>None\<close> stands for each
  of the three \<^verbatim>\<open>continue\<close> statements, \<open>Some\<close> carries the bytes that
  \<^verbatim>\<open>strncat(result, msg_start, msg_end - msg_start)\<close> appends.
\<close>

definition extract_message :: "string \<Rightarrow> int \<Rightarrow> string option" where
  "extract_message output target_party =
     (case strstr output (target_key target_party) of
        None \<Rightarrow> None
      | Some target_pos \<Rightarrow>
          (case strchr target_pos CHR ''{'' of
             None \<Rightarrow> None
           | Some msg_start \<Rightarrow>
               (case brace_scan msg_start 0 0 of
                  (brace_count, n) \<Rightarrow>
                    if brace_count \<noteq> 0 then None else Some (take n msg_start))))"

text \<open>
  The \<^verbatim>\<open>for\<close> loop over the senders. The arrays \<^verbatim>\<open>round1_outputs\<close> and
  \<^verbatim>\<open>round1_lens\<close> with their common length \<^verbatim>\<open>count\<close> are lists; the state is
  the pair of \<^verbatim>\<open>result\<close> and \<^verbatim>\<open>message_count\<close>, and \<open>i\<close> is the loop index.
\<close>

fun convert_loop :: "string list \<Rightarrow> int \<Rightarrow> int \<Rightarrow> string \<times> int \<Rightarrow> string \<times> int" where
  "convert_loop [] i target_party st = st"
| "convert_loop (output # rest) i target_party (result, message_count) =
     (let from_party = i + 1 in
      if from_party = target_party
      then convert_loop rest (i + 1) target_party (result, message_count)
      else
        (case extract_message output target_party of
           None \<Rightarrow> convert_loop rest (i + 1) target_party (result, message_count)
         | Some msg \<Rightarrow>
             convert_loop rest (i + 1) target_party
               ((if message_count > 0 then result @ '','' else result) @ msg,
                message_count + 1)))"

definition convert_state :: "string list \<Rightarrow> int \<Rightarrow> string \<times> int" where
  "convert_state round1_outputs target_party =
     convert_loop round1_outputs 0 target_party (''['', 0)"

definition message_count :: "string list \<Rightarrow> int \<Rightarrow> int" where
  "message_count round1_outputs target_party = snd (convert_state round1_outputs target_party)"

definition convert_round1_to_messages :: "string list \<Rightarrow> int \<Rightarrow> string" where
  "convert_round1_to_messages round1_outputs target_party =
     fst (convert_state round1_outputs target_party) @ '']''"

text \<open>
  The routines \<^verbatim>\<open>convert_round_to_messages\<close> of \<^verbatim>\<open>test_refresh.c\<close> and
  \<^verbatim>\<open>convert_round2_to_messages\<close> of \<^verbatim>\<open>test_complete_ecdsa.c\<close> have the same body
  as \<^verbatim>\<open>convert_round1_to_messages\<close>, up to the names of the parameters (the first also
  omits the final \<^verbatim>\<open>printf\<close>).
\<close>

definition convert_round_to_messages :: "string list \<Rightarrow> int \<Rightarrow> string" where
  "convert_round_to_messages round_outputs target_party =
     fst (convert_loop round_outputs 0 target_party (''['', 0)) @ '']''"

definition convert_round2_to_messages :: "string list \<Rightarrow> int \<Rightarrow> string" where
  "convert_round2_to_messages round2_outputs target_party =
     fst (convert_loop round2_outputs 0 target_party (''['', 0)) @ '']''"

text \<open>
  The size computation at the head of the routine, on C's 32-bit \<^verbatim>\<open>int\<close>:
  \<^verbatim>\<open>total_size = 1000; for (...) total_size += round1_lens[i] * 2;\<close>. The value is
  read with \<open>sint\<close>. Every \<^verbatim>\<open>strcpy\<close>, \<^verbatim>\<open>strcat\<close> and \<^verbatim>\<open>strncat\<close> on
  \<^verbatim>\<open>result\<close> leaves a longer string than before and writes its terminator last, so the
  highest byte written by the whole call is the terminator of the returned string.
\<close>

definition total_size :: "32 word list \<Rightarrow> 32 word" where
  "total_size round1_lens = fold (\<lambda>len total. total + len * 2) round1_lens 1000"

definition bytes_written :: "string list \<Rightarrow> int \<Rightarrow> nat" where
  "bytes_written round1_outputs target_party =
     length (convert_round1_to_messages round1_outputs target_party) + 1"

section \<open>The inline extraction of \<^verbatim>\<open>test_complete_ed25519.c\<close>\<close>

text \<open>
  \<^verbatim>\<open>main\<close> of \<^verbatim>\<open>test_complete_ed25519.c\<close> extracts the peer's message four times with
  the same statements (for the keys of party 1 and party 2, after round 1 and round 2). A
  missing key and a missing brace print a message and \<^verbatim>\<open>goto cleanup\<close>; otherwise
  \<^verbatim>\<open>sprintf(formatted_input, "[%.*s]", msg_len, msg_start)\<close> builds the input of the next
  engine call. There is no test of \<^verbatim>\<open>brace_count\<close> after the loop.
\<close>

datatype extract_error = Key_not_found | Brace_not_found

definition ed25519_formatted_input :: "string \<Rightarrow> int \<Rightarrow> extract_error + string" where
  "ed25519_formatted_input round_data target_party =
     (case strstr round_data (target_key target_party) of
        None \<Rightarrow> Inl Key_not_found
      | Some target_pos \<Rightarrow>
          (case strchr target_pos CHR ''{'' of
             None \<Rightarrow> Inl Brace_not_found
           | Some msg_start \<Rightarrow>
               (case brace_scan msg_start 0 0 of
                  (brace_count, msg_len) \<Rightarrow> Inr (''['' @ take msg_len msg_start @ '']''))))"

section \<open>The inline aggregation of \<^verbatim>\<open>test_refresh.c\<close>\<close>

text \<open>
  \<^verbatim>\<open>test_refresh\<close> builds the inputs of rounds 2 and 3 inline. The value must start
  right after the key, the counter starts at 1 behind the opening brace, and the loop is
  \<^verbatim>\<open>while (*msg_end && brace_count > 0)\<close>. Outputs of at most two bytes are skipped.
\<close>

fun refresh_scan :: "string \<Rightarrow> int \<Rightarrow> nat \<Rightarrow> int \<times> nat" where
  "refresh_scan [] brace_count n = (brace_count, n)"
| "refresh_scan (c # cs) brace_count n =
     (if brace_count > 0
      then refresh_scan cs
             (if c = CHR ''{'' then brace_count + 1
              else if c = CHR ''}'' then brace_count - 1
              else brace_count) (Suc n)
      else (brace_count, n))"

definition refresh_extract :: "string \<Rightarrow> int \<Rightarrow> string option" where
  "refresh_extract msg_data target_party =
     (if length msg_data > 2 then
        (case strstr msg_data (target_key target_party) of
           None \<Rightarrow> None
         | Some found \<Rightarrow>
             (let target_msg = drop (length (target_key target_party)) found in
              (case target_msg of
                 [] \<Rightarrow> None
               | c # cs \<Rightarrow>
                   if c = CHR ''{'' then
                     (case refresh_scan cs 1 1 of
                        (brace_count, msg_len) \<Rightarrow>
                          if brace_count = 0 then Some (take msg_len target_msg) else None)
                   else None)))
      else None)"

fun refresh_loop :: "string list \<Rightarrow> nat \<Rightarrow> nat \<Rightarrow> string \<times> bool \<Rightarrow> string \<times> bool" where
  "refresh_loop [] j i st = st"
| "refresh_loop (msg_data # rest) j i (aggregated_messages, first) =
     (if j \<noteq> i then
        (case refresh_extract msg_data (int i + 1) of
           None \<Rightarrow> refresh_loop rest (Suc j) i (aggregated_messages, first)
         | Some extracted_msg \<Rightarrow>
             refresh_loop rest (Suc j) i
               ((if \<not> first then aggregated_messages @ '','' else aggregated_messages)
                  @ extracted_msg, False))
      else refresh_loop rest (Suc j) i (aggregated_messages, first))"

definition refresh_aggregate :: "string list \<Rightarrow> nat \<Rightarrow> string" where
  "refresh_aggregate round_messages i =
     fst (refresh_loop round_messages 0 i (''['', True)) @ '']''"

section \<open>The envelope encoding\<close>

text \<open>
  The encoder of the envelope is part of the round engine and is not among the C sources;
  the two definitions below follow the specification. An envelope is the list of its
  entries, PartyId and payload, in the order they are written.
\<close>

type_synonym envelope = "(int \<times> string) list"

text \<open>The bracket-free part of an array or object: the items separated by commas.\<close>

fun join_comma :: "string list \<Rightarrow> string" where
  "join_comma [] = []"
| "join_comma [s] = s"
| "join_comma (s # t # ts) = s @ '','' @ join_comma (t # ts)"

text \<open>
  Modelled from the spec: one entry of the envelope's wire format, the stringified PartyId
  as key followed by the payload, \<^verbatim>\<open>"<id>":<payload>\<close>. This is the key the routines
  above search for.
\<close>

definition encode_entry :: "int \<times> string \<Rightarrow> string" where
  "encode_entry e = target_key (fst e) @ snd e"

text \<open>
  Modelled from the spec: the wire format of an envelope, a brace-delimited associative
  structure whose top level maps each PartyId present to its payload.
\<close>

definition encode :: "envelope \<Rightarrow> string" where
  "encode env = ''{'' @ join_comma (map encode_entry env) @ ''}''"

text \<open>The text of \<open>encode (xs @ e # ys)\<close> in front of the entry \<open>e\<close>.\<close>

definition encoded_before :: "envelope \<Rightarrow> string" where
  "encoded_before xs = ''{'' @ concat (map (\<lambda>e. encode_entry e @ '','') xs)"

section \<open>Notions used to state the properties\<close>

text \<open>The brace depth of a text: opening braces minus closing braces, as the scan counts them.\<close>

fun brace_depth :: "string \<Rightarrow> int" where
  "brace_depth [] = 0"
| "brace_depth (c # cs) =
     (if c = CHR ''{'' then 1 else if c = CHR ''}'' then - 1 else 0) + brace_depth cs"

text \<open>
  A brace-balanced span starts with an opening brace and its depth returns to zero for the
  first time at its last byte.
\<close>

definition balanced_span :: "string \<Rightarrow> bool" where
  "balanced_span s \<longleftrightarrow>
     s \<noteq> [] \<and> hd s = CHR ''{'' \<and> brace_depth s = 0 \<and>
     (\<forall>k \<in> {1..<length s}. 0 < brace_depth (take k s))"

text \<open>The depth of a text never returns to zero, up to and including its end.\<close>

definition never_closed :: "string \<Rightarrow> bool" where
  "never_closed s \<longleftrightarrow> (\<forall>k \<in> {1..length s}. 0 < brace_depth (take k s))"

text \<open>The key occurs somewhere in a text; the key does not start anywhere inside \<open>pre\<close>
  when it follows \<open>pre\<close>.\<close>

definition occurs_in :: "string \<Rightarrow> string \<Rightarrow> bool" where
  "occurs_in key s \<longleftrightarrow> (\<exists>i \<in> {0..length s}. prefix key (drop i s))"

definition key_first :: "string \<Rightarrow> string \<Rightarrow> bool" where
  "key_first key pre \<longleftrightarrow> (\<forall>i \<in> {0..<length pre}. \<not> prefix key (drop i (pre @ key)))"

text \<open>
  The first occurrence of the key of \<open>target_party\<close> in \<open>output\<close> is directly followed by
  the brace-balanced span \<open>span\<close>.
\<close>

definition located_entry :: "string \<Rightarrow> int \<Rightarrow> string \<Rightarrow> bool" where
  "located_entry output target_party span \<longleftrightarrow>
     balanced_span span \<and>
     (\<exists>n \<in> {0..length output}.
        prefix (target_key target_party @ span) (drop n output) \<and>
        key_first (target_key target_party) (take n output))"

text \<open>
  The output holds, somewhere, the key of \<open>target_party\<close> directly followed by the
  brace-balanced span \<open>span\<close>; the occurrence need not be the first one.
\<close>

definition contains_entry :: "string \<Rightarrow> int \<Rightarrow> string \<Rightarrow> bool" where
  "contains_entry output target_party span \<longleftrightarrow>
     balanced_span span \<and> occurs_in (target_key target_party @ span) output"

text \<open>
  The senders whose message the loop appends, with the message, in the order of the loop;
  \<open>i\<close> is the index of the first output of the list.
\<close>

fun extracted_from :: "string list \<Rightarrow> int \<Rightarrow> int \<Rightarrow> (int \<times> string) list" where
  "extracted_from [] i target_party = []"
| "extracted_from (output # rest) i target_party =
     (if i + 1 = target_party then []
      else (case extract_message output target_party of
              None \<Rightarrow> []
            | Some msg \<Rightarrow> [(i + 1, msg)]))
     @ extracted_from rest (i + 1) target_party"

text \<open>A list of per-party items without the item of \<open>target_party\<close> itself.\<close>

fun without_own :: "'a list \<Rightarrow> int \<Rightarrow> int \<Rightarrow> 'a list" where
  "without_own [] i target_party = []"
| "without_own (x # xs) i target_party =
     (if i + 1 = target_party then [] else [x]) @ without_own xs (i + 1) target_party"

section \<open>The two-party ECDSA signing run of \<^verbatim>\<open>test_complete_ecdsa.c\<close>\<close>

text \<open>
  The round engine is external. Its five signing entry points are parameters: each takes
  the state behind a session handle and the input buffers, and returns the result code,
  the output buffers and the new state. A buffer with its length is a string.
\<close>

record 's sign_engine =
  go_ecdsa_sign_step1 :: "'s \<Rightarrow> int \<times> string \<times> 's"
  go_ecdsa_sign_p2_step1 :: "'s \<Rightarrow> string \<Rightarrow> int \<times> (string \<times> string) \<times> 's"
  go_ecdsa_sign_p1_step2 :: "'s \<Rightarrow> string \<Rightarrow> string \<Rightarrow> int \<times> (string \<times> string) \<times> 's"
  go_ecdsa_sign_p2_step2 :: "'s \<Rightarrow> string \<Rightarrow> string \<Rightarrow> int \<times> (string \<times> string) \<times> 's"
  go_ecdsa_sign_p1_step3 :: "'s \<Rightarrow> string \<Rightarrow> string \<Rightarrow> int \<times> (string \<times> string) \<times> 's"

datatype role = P1 | P2

text \<open>One engine call as the driver makes it: the session it is made on, the entry point,
  the input buffers in argument order and the output buffers in argument order.\<close>

record engine_call =
  driver :: role
  entry :: string
  inputs :: "string list"
  outputs :: "string list"

definition call :: "role \<Rightarrow> string \<Rightarrow> string list \<Rightarrow> string list \<Rightarrow> engine_call" where
  "call r e ins outs = \<lparr>driver = r, entry = e, inputs = ins, outputs = outs\<rparr>"

text \<open>
  The signing phase of \<^verbatim>\<open>main\<close> from \<^verbatim>\<open>P1 Step1\<close> on: \<open>Inl result\<close> is the
  \<^verbatim>\<open>return 1\<close> after a nonzero result code, \<open>Inr\<close> the signature that is printed. The
  second component lists the engine calls made, in order.
\<close>

definition ecdsa_sign_run ::
  "'s sign_engine \<Rightarrow> 's \<Rightarrow> 's \<Rightarrow> (int + string \<times> string) \<times> engine_call list" where
  "ecdsa_sign_run eng p1_sign_handle p2_sign_handle =
     (case go_ecdsa_sign_step1 eng p1_sign_handle of
        (r1, p1_commit_data, h1a) \<Rightarrow>
     let t1 = [call P1 ''go_ecdsa_sign_step1'' [] [p1_commit_data]] in
     if r1 \<noteq> 0 then (Inl r1, t1) else
     (case go_ecdsa_sign_p2_step1 eng p2_sign_handle p1_commit_data of
        (r2, (p2_proof_data, p2_r2_data), h2a) \<Rightarrow>
     let t2 = t1 @ [call P2 ''go_ecdsa_sign_p2_step1'' [p1_commit_data]
                      [p2_proof_data, p2_r2_data]] in
     if r2 \<noteq> 0 then (Inl r2, t2) else
     (case go_ecdsa_sign_p1_step2 eng h1a p2_proof_data p2_r2_data of
        (r3, (p1_proof_data, p1_cmtd_data), h1b) \<Rightarrow>
     let t3 = t2 @ [call P1 ''go_ecdsa_sign_p1_step2'' [p2_proof_data, p2_r2_data]
                      [p1_proof_data, p1_cmtd_data]] in
     if r3 \<noteq> 0 then (Inl r3, t3) else
     (case go_ecdsa_sign_p2_step2 eng h2a p1_cmtd_data p1_proof_data of
        (r4, (p2_ek_data, p2_affine_proof_data), h2b) \<Rightarrow>
     let t4 = t3 @ [call P2 ''go_ecdsa_sign_p2_step2'' [p1_cmtd_data, p1_proof_data]
                      [p2_ek_data, p2_affine_proof_data]] in
     if r4 \<noteq> 0 then (Inl r4, t4) else
     (case go_ecdsa_sign_p1_step3 eng h1b p2_ek_data p2_affine_proof_data of
        (r5, (signature_r, signature_s), h1c) \<Rightarrow>
     let t5 = t4 @ [call P1 ''go_ecdsa_sign_p1_step3'' [p2_ek_data, p2_affine_proof_data]
                      [signature_r, signature_s]] in
     if r5 \<noteq> 0 then (Inl r5, t5) else (Inr (signature_r, signature_s), t5))))))"

text \<open>
  An engine to run the driver on. The state behind a handle is a counter: the session of P1
  starts at 10, the one of P2 at 20, and every call advances the state it is made on. A call
  succeeds only on the state its session has reached and on the buffers the step before it
  produced; any other call returns \<open>- 1\<close>.
\<close>

definition sample_engine :: "nat sign_engine" where
  "sample_engine = \<lparr>
     go_ecdsa_sign_step1 =
       (\<lambda>h. (if h = 10 then 0 else - 1, ''commit'', Suc h)),
     go_ecdsa_sign_p2_step1 =
       (\<lambda>h c. (if h = 20 \<and> c = ''commit'' then 0 else - 1, (''proof2'', ''r2''), Suc h)),
     go_ecdsa_sign_p1_step2 =
       (\<lambda>h p r. (if h = 11 \<and> p = ''proof2'' \<and> r = ''r2'' then 0 else - 1,
                  (''proof1'', ''cmtd''), Suc h)),
     go_ecdsa_sign_p2_step2 =
       (\<lambda>h c p. (if h = 21 \<and> c = ''cmtd'' \<and> p = ''proof1'' then 0 else - 1,
                  (''ek'', ''affine''), Suc h)),
     go_ecdsa_sign_p1_step3 =
       (\<lambda>h e a. (if h = 12 \<and> e = ''ek'' \<and> a = ''affine'' then 0 else - 1,
                  (''R'', ''S''), Suc h))\<rparr>"

section \<open>The JNI bindings of \<^verbatim>\<open>mpc_jni.c\<close>\<close>

text \<open>
  What a binding hands back to the Java runtime: a value, or a pending exception raised with
  \<^verbatim>\<open>ThrowNew\<close> (class name and message). \<open>Fault\<close> stands for a JNI call the source
  makes outside its contract: an array of negative length, a copy of more bytes than the
  buffer holds, or a string made from a NULL pointer.
\<close>

datatype jvalue =
    JLong int
  | JNull
  | JByteArray string
  | JString string
  | JObjectArray "jvalue list"

datatype jni_outcome = Returns jvalue | Throws string string | Fault

text \<open>
  What the engine call inside a binding leaves behind: its result code, the handle it
  stored, and up to two output buffers, each a pointer (NULL is \<open>None\<close>, otherwise the
  bytes the buffer holds) and the length the engine reports for it.
\<close>

record engine_out =
  result :: int
  handle :: int
  out1 :: "string option"
  len1 :: int
  out2 :: "string option"
  len2 :: int

text \<open>
  \<^verbatim>\<open>NewByteArray(env, out_len)\<close> followed by
  \<^verbatim>\<open>SetByteArrayRegion(env, array, 0, out_len, (jbyte*)out_data)\<close>: an array of
  \<^verbatim>\<open>out_len\<close> bytes copied from the buffer. With length 0 nothing is read, so the
  array is empty also for a NULL buffer.
\<close>

definition new_byte_array :: "string option \<Rightarrow> int \<Rightarrow> jvalue option" where
  "new_byte_array out_data out_len =
     (if out_len < 0 then None
      else if out_len = 0 then Some (JByteArray [])
      else (case out_data of
              None \<Rightarrow> None
            | Some d \<Rightarrow>
                if nat out_len \<le> length d then Some (JByteArray (take (nat out_len) d))
                else None))"

datatype binding =
    keygenInit | keygenRound1 | keygenRound2 | keygenRound3
  | refreshInit | refreshRound1 | refreshRound2 | refreshRound3
  | ed25519SignInit | ed25519SignRound1 | ed25519SignRound2 | ed25519SignRound3
  | ecdsaKeygenGenerateP2Params | ecdsaKeygenP1 | ecdsaKeygenP2
  | ecdsaSignInitP1Complex | ecdsaSignInitP2Complex
  | ecdsaSignStep1 | ecdsaSignP2Step1 | ecdsaSignP1Step2 | ecdsaSignP2Step2
  | ecdsaSignP1Step3

text \<open>
  A binding is named by the last part of its JNI name
  \<^verbatim>\<open>Java_com_example_mpctest_MPCNative_<name>\<close>; listed are the bindings whose engine call
  returns a result code. The bodies come in seven shapes. The first three signal a failure
  by the value alone.
\<close>

definition init_quiet :: "engine_out \<Rightarrow> jni_outcome" where
  \<comment> \<open>\<^verbatim>\<open>if (result != 0) return 0; return (jlong)handle;\<close>\<close>
  "init_quiet e = (if result e \<noteq> 0 then Returns (JLong 0) else Returns (JLong (handle e)))"

definition bytes_quiet :: "engine_out \<Rightarrow> jni_outcome" where
  \<comment> \<open>\<^verbatim>\<open>if (result != 0 || outData == NULL) return NULL;\<close> then the byte array\<close>
  "bytes_quiet e =
     (if result e \<noteq> 0 \<or> out1 e = None then Returns JNull
      else (case new_byte_array (out1 e) (len1 e) of
              None \<Rightarrow> Fault
            | Some a \<Rightarrow> Returns a))"

definition strings_quiet :: "engine_out \<Rightarrow> jni_outcome" where
  \<comment> \<open>\<^verbatim>\<open>if (result != 0 || sigR == NULL || sigS == NULL) return NULL;\<close>\<close>
  "strings_quiet e =
     (if result e \<noteq> 0 \<or> out1 e = None \<or> out2 e = None then Returns JNull
      else Returns (JObjectArray [JString (the (out1 e)), JString (the (out2 e))]))"

text \<open>
  The ECDSA bindings format the result code into a message with
  \<^verbatim>\<open>snprintf(error_msg, sizeof(error_msg), "<text>: %d", result)\<close> and raise
  \<^verbatim>\<open>java/lang/RuntimeException\<close> with it. The texts are UTF-8; their non-ASCII parts are
  the byte sequences below (the words for "failed", "signing", "parameter generation" and
  "initialisation"). No message is longer than 42 bytes, well inside the 256 of the buffer.
\<close>

definition zh_failed :: string where
  "zh_failed = [CHR 0xE5, CHR 0xA4, CHR 0xB1, CHR 0xE8, CHR 0xB4, CHR 0xA5]"

definition zh_sign :: string where
  "zh_sign = [CHR 0xE7, CHR 0xAD, CHR 0xBE, CHR 0xE5, CHR 0x90, CHR 0x8D]"

definition zh_param_gen :: string where
  "zh_param_gen = [CHR 0xE5, CHR 0x8F, CHR 0x82, CHR 0xE6, CHR 0x95, CHR 0xB0, CHR 0xE7, CHR 0x94, CHR 0x9F, CHR 0xE6, CHR 0x88, CHR 0x90]"

definition zh_init :: string where
  "zh_init = [CHR 0xE5, CHR 0x88, CHR 0x9D, CHR 0xE5, CHR 0xA7, CHR 0x8B, CHR 0xE5, CHR 0x8C, CHR 0x96]"

fun error_text :: "binding \<Rightarrow> string" where
  "error_text ecdsaKeygenGenerateP2Params = ''ECDSA P2'' @ zh_param_gen @ zh_failed"
| "error_text ecdsaKeygenP1 = ''P1 ECDSA keygen'' @ zh_failed"
| "error_text ecdsaKeygenP2 = ''P2 ECDSA keygen'' @ zh_failed"
| "error_text ecdsaSignInitP1Complex = ''P1 ECDSA'' @ zh_sign @ zh_init @ zh_failed"
| "error_text ecdsaSignInitP2Complex = ''P2 ECDSA'' @ zh_sign @ zh_init @ zh_failed"
| "error_text ecdsaSignStep1 = ''ECDSA'' @ zh_sign @ ''Step1'' @ zh_failed"
| "error_text ecdsaSignP2Step1 = ''ECDSA'' @ zh_sign @ ''P2Step1'' @ zh_failed"
| "error_text ecdsaSignP1Step2 = ''ECDSA'' @ zh_sign @ ''P1Step2'' @ zh_failed"
| "error_text ecdsaSignP2Step2 = ''ECDSA'' @ zh_sign @ ''P2Step2'' @ zh_failed"
| "error_text ecdsaSignP1Step3 = ''ECDSA'' @ zh_sign @ ''P1Step3'' @ zh_failed"
| "error_text b = []"

definition throw_runtime :: "binding \<Rightarrow> int \<Rightarrow> jni_outcome" where
  "throw_runtime b code =
     Throws ''java/lang/RuntimeException'' (error_text b @ '': '' @ sprintf_d code)"

definition init_throwing :: "binding \<Rightarrow> engine_out \<Rightarrow> jni_outcome" where
  "init_throwing b e =
     (if result e \<noteq> 0 then throw_runtime b (result e) else Returns (JLong (handle e)))"

definition bytes_throwing :: "binding \<Rightarrow> engine_out \<Rightarrow> jni_outcome" where
  "bytes_throwing b e =
     (if result e \<noteq> 0 then throw_runtime b (result e)
      else (case new_byte_array (out1 e) (len1 e) of
              None \<Rightarrow> Fault
            | Some a \<Rightarrow> Returns a))"

definition pair_throwing :: "binding \<Rightarrow> engine_out \<Rightarrow> jni_outcome" where
  "pair_throwing b e =
     (if result e \<noteq> 0 then throw_runtime b (result e)
      else (case (new_byte_array (out1 e) (len1 e), new_byte_array (out2 e) (len2 e)) of
              (Some a1, Some a2) \<Rightarrow> Returns (JObjectArray [a1, a2])
            | _ \<Rightarrow> Fault))"

definition strings_throwing :: "binding \<Rightarrow> engine_out \<Rightarrow> jni_outcome" where
  "strings_throwing b e =
     (if result e \<noteq> 0 then throw_runtime b (result e)
      else (case (out1 e, out2 e) of
              (Some r, Some s) \<Rightarrow> Returns (JObjectArray [JString r, JString s])
            | _ \<Rightarrow> Fault))"

fun jni_binding :: "binding \<Rightarrow> engine_out \<Rightarrow> jni_outcome" where
  "jni_binding keygenInit e = init_quiet e"
| "jni_binding keygenRound1 e = bytes_quiet e"
| "jni_binding keygenRound2 e = bytes_quiet e"
| "jni_binding keygenRound3 e = bytes_quiet e"
| "jni_binding refreshInit e = init_quiet e"
| "jni_binding refreshRound1 e = bytes_quiet e"
| "jni_binding refreshRound2 e = bytes_quiet e"
| "jni_binding refreshRound3 e = bytes_quiet e"
| "jni_binding ed25519SignInit e = init_quiet e"
| "jni_binding ed25519SignRound1 e = bytes_quiet e"
| "jni_binding ed25519SignRound2 e = bytes_quiet e"
| "jni_binding ed25519SignRound3 e = strings_quiet e"
| "jni_binding ecdsaKeygenGenerateP2Params e = bytes_throwing ecdsaKeygenGenerateP2Params e"
| "jni_binding ecdsaKeygenP1 e = pair_throwing ecdsaKeygenP1 e"
| "jni_binding ecdsaKeygenP2 e = bytes_throwing ecdsaKeygenP2 e"
| "jni_binding ecdsaSignInitP1Complex e = init_throwing ecdsaSignInitP1Complex e"
| "jni_binding ecdsaSignInitP2Complex e = init_throwing ecdsaSignInitP2Complex e"
| "jni_binding ecdsaSignStep1 e = bytes_throwing ecdsaSignStep1 e"
| "jni_binding ecdsaSignP2Step1 e = pair_throwing ecdsaSignP2Step1 e"
| "jni_binding ecdsaSignP1Step2 e = pair_throwing ecdsaSignP1Step2 e"
| "jni_binding ecdsaSignP2Step2 e = pair_throwing ecdsaSignP2Step2 e"
| "jni_binding ecdsaSignP1Step3 e = strings_throwing ecdsaSignP1Step3 e"

definition ecdsa_bindings :: "binding list" where
  "ecdsa_bindings =
     [ecdsaKeygenGenerateP2Params, ecdsaKeygenP1, ecdsaKeygenP2, ecdsaSignInitP1Complex,
      ecdsaSignInitP2Complex, ecdsaSignStep1, ecdsaSignP2Step1, ecdsaSignP1Step2,
      ecdsaSignP2Step2, ecdsaSignP1Step3]"

definition quiet_bindings :: "binding list" where
  "quiet_bindings =
     [keygenInit, keygenRound1, keygenRound2, keygenRound3, refreshInit, refreshRound1,
      refreshRound2, refreshRound3, ed25519SignInit, ed25519SignRound1, ed25519SignRound2,
      ed25519SignRound3]"

text \<open>
  The messages located in the outputs of the other parties, by ascending sender: the output
  at index \<open>i\<close> is the one of party \<open>i + 1\<close>.
\<close>

definition peer_messages :: "string list \<Rightarrow> int \<Rightarrow> string list" where
  "peer_messages outs target_party =
     List.map_filter
       (\<lambda>i. if int i + 1 = target_party then None else extract_message (outs ! i) target_party)
       [0..<length outs]"

text \<open>No occurrence of the key starts inside \<open>a\<close> when \<open>a\<close> is followed by \<open>b\<close>.\<close>

definition no_start :: "string \<Rightarrow> string \<Rightarrow> string \<Rightarrow> bool" where
  "no_start key a b \<longleftrightarrow> (\<forall>i \<in> {0..<length a}. \<not> prefix key (drop i (a @ b)))"

text \<open>The number a decimal numeral denotes; it inverts \<open>dec_digits\<close>.\<close>

definition digit_value :: "char \<Rightarrow> nat" where
  "digit_value c = length (takeWhile (\<lambda>d. d \<noteq> c) ''0123456789'')"

definition dec_value :: "string \<Rightarrow> nat" where
  "dec_value s = foldl (\<lambda>a c. 10 * a + digit_value c) 0 s"

text \<open>
  An envelope of \<open>2 ^ 30\<close> bytes: one entry, addressed to party 1, whose payload is one
  long string.
\<close>

definition big_output :: string where
  \<open>big_output = ''{"1":{"a":"'' @ replicate 1073741810 CHR ''a'' @ ''"}}''\<close>

section \<open>Properties of the scan and of the string search\<close>

lemma brace_depth_append: "brace_depth (xs @ ys) = brace_depth xs + brace_depth ys"
  by (induction xs) auto

lemma brace_scan_char:
  "xs \<noteq> [] \<Longrightarrow> brace_scan xs bc n = (bc', m) \<Longrightarrow>
     n < m \<and> m - n \<le> length xs \<and> bc' = bc + brace_depth (take (m - n) xs) \<and>
     (\<forall>k \<in> {1..<m - n}. 0 < bc + brace_depth (take k xs)) \<and>
     (0 < bc' \<longrightarrow> m - n = length xs)"
proof (induction xs arbitrary: bc n)
  case Nil
  then show ?case by simp
next
  case (Cons c cs)
  define d where "d = bc + (if c = CHR ''{'' then 1 else if c = CHR ''}'' then - 1 else 0)"
  have step: "brace_scan (c # cs) bc n =
                (if 0 < d \<and> cs \<noteq> [] then brace_scan cs d (Suc n) else (d, Suc n))"
    by (simp add: d_def Let_def)
  have dtake: "\<And>k. bc + brace_depth (take (Suc k) (c # cs)) = d + brace_depth (take k cs)"
    by (simp add: d_def)
  show ?case
  proof (cases "0 < d \<and> cs \<noteq> []")
    case True
    then have rec: "brace_scan cs d (Suc n) = (bc', m)"
      using Cons.prems(2) step by simp
    have cne: "cs \<noteq> []" using True by simp
    note IH = Cons.IH[OF cne rec]
    have ih: "Suc n < m" "m - Suc n \<le> length cs" "bc' = d + brace_depth (take (m - Suc n) cs)"
      "\<forall>k \<in> {1..<m - Suc n}. 0 < d + brace_depth (take k cs)"
      "0 < bc' \<longrightarrow> m - Suc n = length cs"
      using IH by blast+
    have mn: "m - n = Suc (m - Suc n)" using ih(1) by arith
    have "\<forall>k \<in> {1..<m - n}. 0 < bc + brace_depth (take k (c # cs))"
    proof
      fix k assume k: "k \<in> {1..<m - n}"
      show "0 < bc + brace_depth (take k (c # cs))"
      proof (cases k)
        case 0 then show ?thesis using k by simp
      next
        case (Suc j)
        show ?thesis
        proof (cases "j = 0")
          case True
          then show ?thesis using Suc \<open>0 < d \<and> cs \<noteq> []\<close> dtake[of 0] by simp
        next
          case False
          then have "j \<in> {1..<m - Suc n}" using k Suc mn by auto
          with ih(4) have "0 < d + brace_depth (take j cs)" by blast
          then show ?thesis using Suc dtake[of j] by simp
        qed
      qed
    qed
    moreover have "bc' = bc + brace_depth (take (m - n) (c # cs))"
      using ih(3) mn dtake[of "m - Suc n"] by simp
    moreover have "n < m" using ih(1) by simp
    moreover have "m - n \<le> length (c # cs)" using ih(2) mn by simp
    moreover have "0 < bc' \<longrightarrow> m - n = length (c # cs)" using ih(5) mn by simp
    ultimately show ?thesis by blast
  next
    case False
    then have eq: "bc' = d" "m = Suc n"
      using Cons.prems(2) step by (simp_all split: if_splits)
    have "bc' = bc + brace_depth (take (m - n) (c # cs))"
      using eq dtake[of 0] by simp
    moreover have "0 < bc' \<longrightarrow> m - n = length (c # cs)"
      using eq False by auto
    ultimately show ?thesis using eq by simp
  qed
qed

lemma brace_scan_balanced:
  "s \<noteq> [] \<Longrightarrow> bc + brace_depth s = 0 \<Longrightarrow>
   (\<forall>k \<in> {1..<length s}. 0 < bc + brace_depth (take k s)) \<Longrightarrow>
   brace_scan (s @ rest) bc n = (0, n + length s)"
proof (induction s arbitrary: bc n)
  case Nil
  then show ?case by simp
next
  case (Cons c cs)
  define d where "d = bc + (if c = CHR ''{'' then 1 else if c = CHR ''}'' then - 1 else 0)"
  have step: "brace_scan ((c # cs) @ rest) bc n =
                (if 0 < d \<and> cs @ rest \<noteq> [] then brace_scan (cs @ rest) d (Suc n)
                 else (d, Suc n))"
    by (simp add: d_def Let_def)
  show ?case
  proof (cases "cs = []")
    case True
    then have "d = 0" using Cons.prems(2) by (simp add: d_def)
    then show ?thesis using True step by simp
  next
    case False
    then have "1 \<in> {1..<length (c # cs)}" by (cases cs) auto
    with Cons.prems(3) have "0 < bc + brace_depth (take 1 (c # cs))" by blast
    then have dpos: "0 < d" by (simp add: d_def)
    have a: "d + brace_depth cs = 0" using Cons.prems(2) by (simp add: d_def)
    have b: "\<forall>k \<in> {1..<length cs}. 0 < d + brace_depth (take k cs)"
    proof
      fix k assume "k \<in> {1..<length cs}"
      then have "Suc k \<in> {1..<length (c # cs)}" by simp
      with Cons.prems(3) have "0 < bc + brace_depth (take (Suc k) (c # cs))" by blast
      then show "0 < d + brace_depth (take k cs)" by (simp add: d_def)
    qed
    have "brace_scan (cs @ rest) d (Suc n) = (0, Suc n + length cs)"
      by (rule Cons.IH[OF False a b])
    then show ?thesis using dpos False step by simp
  qed
qed

lemma strstr_first:
  "key_first key pre \<Longrightarrow> strstr (pre @ key @ rest) key = Some (key @ rest)"
proof (induction pre)
  case Nil
  have "prefix key (key @ rest)" by simp
  then show ?case by (cases "key @ rest") auto
next
  case (Cons c pre)
  have "0 \<in> {0..<length (c # pre)}" by simp
  with Cons.prems have "\<not> prefix key (drop 0 ((c # pre) @ key))"
    unfolding key_first_def by blast
  then have n0: "\<not> prefix key (c # pre @ key)" by simp
  have n1: "\<not> prefix key (c # pre @ key @ rest)"
  proof
    assume "prefix key (c # pre @ key @ rest)"
    then have "prefix key ((c # pre @ key) @ rest)" by simp
    moreover have "length key \<le> length (c # pre @ key)" by simp
    ultimately have "prefix key (c # pre @ key)"
      by (metis prefix_length_prefix prefixI)
    with n0 show False by simp
  qed
  have "key_first key pre"
    unfolding key_first_def
  proof
    fix i assume "i \<in> {0..<length pre}"
    then have "Suc i \<in> {0..<length (c # pre)}" by simp
    with Cons.prems have "\<not> prefix key (drop (Suc i) ((c # pre) @ key))"
      unfolding key_first_def by blast
    then show "\<not> prefix key (drop i (pre @ key))" by simp
  qed
  then have "strstr (pre @ key @ rest) key = Some (key @ rest)" by (rule Cons.IH)
  then show ?case using n1 by simp
qed

lemma strstr_Some:
  "strstr hay needle = Some s \<Longrightarrow> prefix needle s \<and> suffix s hay"
proof (induction hay)
  case Nil then show ?case by (auto split: if_splits)
next
  case (Cons c cs)
  then show ?case by (auto split: if_splits simp: suffix_Cons)
qed

lemma strstr_None:
  "strstr hay needle = None \<longleftrightarrow> (\<forall>i \<in> {0..length hay}. \<not> prefix needle (drop i hay))"
proof (induction hay)
  case Nil then show ?case by auto
next
  case (Cons c cs)
  have "(\<forall>i \<in> {0..length (c # cs)}. \<not> prefix needle (drop i (c # cs))) \<longleftrightarrow>
        (\<not> prefix needle (c # cs) \<and> (\<forall>i \<in> {0..length cs}. \<not> prefix needle (drop i cs)))"
    (is "?L \<longleftrightarrow> ?R")
  proof
    assume l: ?L
    have "\<not> prefix needle (c # cs)" using l by force
    moreover have "\<forall>i \<in> {0..length cs}. \<not> prefix needle (drop i cs)"
    proof
      fix i assume "i \<in> {0..length cs}"
      then have "Suc i \<in> {0..length (c # cs)}" by simp
      with l have "\<not> prefix needle (drop (Suc i) (c # cs))" by blast
      then show "\<not> prefix needle (drop i cs)" by simp
    qed
    ultimately show ?R by simp
  next
    assume r: ?R
    show ?L
    proof
      fix i assume "i \<in> {0..length (c # cs)}"
      show "\<not> prefix needle (drop i (c # cs))"
      proof (cases i)
        case 0 then show ?thesis using r by simp
      next
        case (Suc j)
        then have "j \<in> {0..length cs}" using \<open>i \<in> {0..length (c # cs)}\<close> by simp
        then show ?thesis using r Suc by simp
      qed
    qed
  qed
  then show ?case using Cons by simp
qed

lemma strchr_Some: "strchr s ch = Some t \<Longrightarrow> t \<noteq> [] \<and> hd t = ch \<and> suffix t s"
  by (induction s) (auto split: if_splits simp: suffix_Cons)

lemma strchr_hd: "strchr (ch # cs) ch = Some (ch # cs)"
  by simp

section \<open>Properties of the aggregation loop\<close>

lemma join_comma_Cons:
  "join_comma (s # ss) = s @ concat (map (\<lambda>t. '','' @ t) ss)"
  by (induction ss arbitrary: s) auto

lemma convert_loop_pos:
  "0 < mc \<Longrightarrow>
   convert_loop outs i p (res, mc) =
     (res @ concat (map (\<lambda>t. '','' @ t) (map snd (extracted_from outs i p))),
      mc + int (length (extracted_from outs i p)))"
proof (induction outs arbitrary: i res mc)
  case Nil
  then show ?case by simp
next
  case (Cons out rest)
  show ?case
  proof (cases "i + 1 = p")
    case True
    then show ?thesis using Cons.IH[OF Cons.prems] by simp
  next
    case False
    show ?thesis
    proof (cases "extract_message out p")
      case None
      then show ?thesis using False Cons.IH[OF Cons.prems] by simp
    next
      case (Some msg)
      have "0 < mc + 1" using Cons.prems by simp
      from Cons.IH[OF this, of "i + 1" "(res @ '','') @ msg"]
      show ?thesis using False Some Cons.prems by simp
    qed
  qed
qed

lemma convert_loop_zero:
  "convert_loop outs i p (res, 0) =
     (res @ join_comma (map snd (extracted_from outs i p)),
      int (length (extracted_from outs i p)))"
proof (induction outs arbitrary: i)
  case Nil
  then show ?case by simp
next
  case (Cons out rest)
  show ?case
  proof (cases "i + 1 = p")
    case True
    then show ?thesis using Cons.IH by simp
  next
    case False
    show ?thesis
    proof (cases "extract_message out p")
      case None
      then show ?thesis using False Cons.IH by simp
    next
      case (Some msg)
      have "convert_loop rest (i + 1) p (res @ msg, 1) =
              ((res @ msg) @ concat (map (\<lambda>t. '','' @ t) (map snd (extracted_from rest (i + 1) p))),
               1 + int (length (extracted_from rest (i + 1) p)))"
        by (rule convert_loop_pos) simp
      then show ?thesis using False Some by (simp add: join_comma_Cons)
    qed
  qed
qed

lemma convert_shape:
  "convert_round1_to_messages outs p =
     ''['' @ join_comma (map snd (extracted_from outs 0 p)) @ '']''"
  by (simp add: convert_round1_to_messages_def convert_state_def convert_loop_zero)

lemma message_count_eq:
  "message_count outs p = int (length (extracted_from outs 0 p))"
  by (simp add: message_count_def convert_state_def convert_loop_zero)

lemma extracted_from_fst:
  "(q, m) \<in> set (extracted_from outs i p) \<Longrightarrow>
     i < q \<and> q \<le> i + int (length outs) \<and> q \<noteq> p \<and>
     extract_message (outs ! nat (q - i - 1)) p = Some m"
proof (induction outs arbitrary: i)
  case Nil
  then show ?case by simp
next
  case (Cons out rest)
  from Cons.prems have "(q = i + 1 \<and> i + 1 \<noteq> p \<and> extract_message out p = Some m) \<or>
      (q, m) \<in> set (extracted_from rest (i + 1) p)"
    by (auto split: if_splits option.splits)
  then show ?case
  proof
    assume "q = i + 1 \<and> i + 1 \<noteq> p \<and> extract_message out p = Some m"
    then show ?thesis by simp
  next
    assume "(q, m) \<in> set (extracted_from rest (i + 1) p)"
    from Cons.IH[OF this]
    have a: "i + 1 < q" "q \<le> i + 1 + int (length rest)" "q \<noteq> p"
      "extract_message (rest ! nat (q - (i + 1) - 1)) p = Some m" by blast+
    have "nat (q - i - 1) = Suc (nat (q - (i + 1) - 1))" using a(1) by simp
    then have "(out # rest) ! nat (q - i - 1) = rest ! nat (q - (i + 1) - 1)" by simp
    then show ?thesis using a by simp
  qed
qed

lemma extracted_from_sorted:
  "sorted_wrt (<) (map fst (extracted_from outs i p))"
proof (induction outs arbitrary: i)
  case Nil
  then show ?case by simp
next
  case (Cons out rest)
  have later: "\<forall>q \<in> set (map fst (extracted_from rest (i + 1) p)). i + 1 < q"
    using extracted_from_fst[of _ _ rest "i + 1" p] by auto
  show ?case
    using Cons.IH[of "i + 1"] later
    by (auto simp: sorted_wrt_append split: option.splits)
qed

lemma balanced_span_last:
  assumes "balanced_span s"
  shows "2 \<le> length s \<and> last s = CHR ''}''"
proof -
  from assms have ne: "s \<noteq> []" and h: "hd s = CHR ''{''" and d: "brace_depth s = 0"
    and pos: "\<forall>k \<in> {1..<length s}. 0 < brace_depth (take k s)"
    unfolding balanced_span_def by blast+
  have len: "2 \<le> length s"
  proof (rule ccontr)
    assume "\<not> 2 \<le> length s"
    moreover have "0 < length s" using ne by simp
    ultimately have "length s = 1" by arith
    then obtain c where "s = [c]" by (cases s) auto
    with h d show False by simp
  qed
  have s: "s = butlast s @ [last s]" using ne by simp
  have "length s - 1 \<in> {1..<length s}" using len by auto
  with pos have "0 < brace_depth (take (length s - 1) s)" by blast
  then have "0 < brace_depth (butlast s)" by (simp add: butlast_conv_take)
  moreover have "brace_depth s = brace_depth (butlast s) + brace_depth [last s]"
    using s brace_depth_append by metis
  ultimately have "brace_depth [last s] < 0" using d by simp
  then have "last s = CHR ''}''" by (simp split: if_splits)
  with len show ?thesis by simp
qed

lemma extract_message_Some:
  assumes "extract_message out p = Some m"
  shows "balanced_span m \<and> length m \<le> length out"
proof -
  from assms obtain target_pos msg_start bc n where
    a: "strstr out (target_key p) = Some target_pos"
    and b: "strchr target_pos CHR ''{'' = Some msg_start"
    and c: "brace_scan msg_start 0 0 = (bc, n)"
    and bc: "bc = 0" and m: "m = take n msg_start"
    unfolding extract_message_def
    by (auto split: option.splits prod.splits if_splits)
  from strchr_Some[OF b] have ne: "msg_start \<noteq> []" and h: "hd msg_start = CHR ''{''"
    and suf1: "suffix msg_start target_pos" by blast+
  from strstr_Some[OF a] have suf2: "suffix target_pos out" by blast
  from brace_scan_char[OF ne c]
  have ch: "0 < n" "n - 0 \<le> length msg_start" "bc = 0 + brace_depth (take (n - 0) msg_start)"
    "\<forall>k \<in> {1..<n - 0}. 0 < 0 + brace_depth (take k msg_start)"
    by blast+
  have n: "0 < n" "n \<le> length msg_start" using ch(1,2) by simp_all
  have dep: "brace_depth (take n msg_start) = 0" using ch(3) bc by simp
  have pos: "\<forall>k \<in> {1..<n}. 0 < brace_depth (take k msg_start)" using ch(4) by simp
  have "m \<noteq> []" using m n ne by (cases msg_start) auto
  moreover have "hd m = CHR ''{''" using m n h ne by (cases msg_start; cases n) auto
  moreover have "brace_depth m = 0" using dep m by simp
  moreover have "\<forall>k \<in> {1..<length m}. 0 < brace_depth (take k m)"
  proof
    fix k assume k: "k \<in> {1..<length m}"
    have lm: "length m = n" using m n by simp
    have kn: "k \<in> {1..<n}" using k lm by simp
    with pos have "0 < brace_depth (take k msg_start)" by blast
    moreover have "min k n = k" using kn by simp
    then have "take k m = take k msg_start" using m by simp
    ultimately show "0 < brace_depth (take k m)" by simp
  qed
  ultimately have "balanced_span m" unfolding balanced_span_def by blast
  moreover have "length m \<le> length out"
  proof -
    have "length m \<le> length msg_start" using m by simp
    also have "\<dots> \<le> length target_pos" using suf1 by (rule suffix_length_le)
    also have "\<dots> \<le> length out" using suf2 by (rule suffix_length_le)
    finally show ?thesis .
  qed
  ultimately show ?thesis by blast
qed

lemma map_filter_Suc_upt:
  "List.map_filter f [0..<Suc n] = (case f 0 of None \<Rightarrow> [] | Some x \<Rightarrow> [x]) @ List.map_filter (f \<circ> Suc) [0..<n]"
proof -
  have "[0..<Suc n] = 0 # map Suc [0..<n]"
    by (simp add: upt_conv_Cons map_Suc_upt del: upt_Suc)
  then show ?thesis
    by (simp add: List.map_filter_def filter_map comp_def split: option.splits del: upt_Suc)
qed

lemma extracted_from_map_filter:
  "map snd (extracted_from outs i p) =
     List.map_filter
       (\<lambda>k. if i + int k + 1 = p then None else extract_message (outs ! k) p)
       [0..<length outs]"
proof (induction outs arbitrary: i)
  case Nil
  then show ?case by (simp add: List.map_filter_def)
next
  case (Cons out rest)
  have "map snd (extracted_from rest (i + 1) p) =
     List.map_filter
       (\<lambda>k. if i + 1 + int k + 1 = p then None else extract_message (rest ! k) p)
       [0..<length rest]"
    by (rule Cons.IH)
  moreover have "(\<lambda>k. if i + 1 + int k + 1 = p then None else extract_message (rest ! k) p) =
     (\<lambda>k. if i + int k + 1 = p then None else extract_message ((out # rest) ! k) p) \<circ> Suc"
    by (auto simp: fun_eq_iff)
  ultimately show ?case
    by (simp add: map_filter_Suc_upt split: option.splits del: upt_Suc)
qed

lemma peer_messages_eq: "map snd (extracted_from outs 0 p) = peer_messages outs p"
  by (simp add: peer_messages_def extracted_from_map_filter)

lemma convert_eq_peer_messages:
  "convert_round1_to_messages outs p = ''['' @ join_comma (peer_messages outs p) @ '']''"
  by (simp add: convert_shape peer_messages_eq)

lemma convert_round_to_messages_eq:
  "convert_round_to_messages outs p = convert_round1_to_messages outs p"
  by (simp add: convert_round_to_messages_def convert_round1_to_messages_def convert_state_def)

lemma convert_round2_to_messages_eq:
  "convert_round2_to_messages outs p = convert_round1_to_messages outs p"
  by (simp add: convert_round2_to_messages_def convert_round1_to_messages_def convert_state_def)

lemma peer_messages_balanced:
  assumes "s \<in> set (peer_messages outs p)"
  shows "balanced_span s"
proof -
  from assms obtain q where "(q, s) \<in> set (extracted_from outs 0 p)"
    unfolding peer_messages_eq[symmetric] by auto
  then have "extract_message (outs ! nat (q - 0 - 1)) p = Some s"
    using extracted_from_fst by blast
  then show ?thesis using extract_message_Some by blast
qed

lemmas eval_simps = List.map_filter_def extract_message_def target_key_def sprintf_d_def
  dec_digits.simps

section \<open>Properties of the extraction\<close>

lemma dec_digits_set: "set (dec_digits n) \<subseteq> set ''0123456789''"
proof (induction n rule: dec_digits.induct)
  case (1 n)
  have d: "\<And>k. k < 10 \<Longrightarrow> ''0123456789'' ! k \<in> set ''0123456789''"
    by (rule nth_mem) simp
  show ?case
  proof (cases "n < 10")
    case True
    then show ?thesis using d[of n] by (subst dec_digits.simps) simp
  next
    case False
    have "n mod 10 < 10" by simp
    then have "''0123456789'' ! (n mod 10) \<in> set ''0123456789''" by (rule d)
    then show ?thesis using False 1 by (subst dec_digits.simps) simp
  qed
qed

lemma target_key_no_brace: "CHR ''{'' \<notin> set (target_key p)"
  using dec_digits_set[of "nat p"] dec_digits_set[of "nat (- p)"]
  by (auto simp: target_key_def sprintf_d_def)

lemma strchr_skip: "ch \<notin> set xs \<Longrightarrow> strchr (xs @ ys) ch = strchr ys ch"
  by (induction xs) auto

lemma extract_message_located:
  assumes "key_first (target_key p) pre" and "balanced_span span"
  shows "extract_message (pre @ target_key p @ span @ rest) p = Some span"
proof -
  have a: "strstr (pre @ target_key p @ span @ rest) (target_key p)
             = Some (target_key p @ span @ rest)"
    using assms(1) by (rule strstr_first)
  from assms(2) obtain cs where span: "span = CHR ''{'' # cs"
    unfolding balanced_span_def by (cases span) auto
  have b: "strchr (target_key p @ span @ rest) CHR ''{'' = Some (span @ rest)"
    using target_key_no_brace[of p] by (simp add: strchr_skip span)
  have c: "brace_scan (span @ rest) 0 0 = (0, 0 + length span)"
  proof (rule brace_scan_balanced)
    show "span \<noteq> []" using span by simp
    show "0 + brace_depth span = 0" using assms(2) by (simp add: balanced_span_def)
    show "\<forall>k \<in> {1..<length span}. 0 < 0 + brace_depth (take k span)"
      using assms(2) by (simp add: balanced_span_def)
  qed
  show ?thesis by (simp add: extract_message_def a b c)
qed

lemma located_entry_extract:
  assumes "located_entry out p span"
  shows "extract_message out p = Some span"
proof -
  from assms obtain n where bs: "balanced_span span"
    and pf: "prefix (target_key p @ span) (drop n out)"
    and kf: "key_first (target_key p) (take n out)"
    unfolding located_entry_def by blast
  from pf obtain rest where "drop n out = (target_key p @ span) @ rest"
    unfolding prefix_def by blast
  then have "out = take n out @ target_key p @ span @ rest"
    by (metis append_take_drop_id append.assoc)
  then show ?thesis using extract_message_located[OF kf bs, of rest] by simp
qed

lemma join_comma_split:
  "join_comma (as @ b # cs) =
     concat (map (\<lambda>a. a @ '','') as) @ b @ concat (map (\<lambda>c. '','' @ c) cs)"
proof (induction as)
  case Nil
  then show ?case by (simp add: join_comma_Cons)
next
  case (Cons a as)
  then show ?case
    by (cases as) (simp_all add: join_comma_Cons)
qed

lemma encode_split:
  "encode (xs @ (t, payload) # ys) =
     encoded_before xs @ target_key t @ payload
       @ (concat (map (\<lambda>e. '','' @ encode_entry e) ys) @ ''}'')"
  by (simp add: encode_def encoded_before_def join_comma_split encode_entry_def comp_def)

section \<open>Properties of the routing\<close>

lemma extracted_from_update:
  "i + int k + 1 = p \<Longrightarrow> extracted_from (outs[k := x]) i p = extracted_from outs i p"
proof (induction outs arbitrary: i k)
  case Nil
  then show ?case by simp
next
  case (Cons out rest)
  show ?case
  proof (cases k)
    case 0
    then show ?thesis using Cons.prems by simp
  next
    case (Suc j)
    then have "i + 1 + int j + 1 = p" using Cons.prems by simp
    then have "extracted_from (rest[j := x]) (i + 1) p = extracted_from rest (i + 1) p"
      by (rule Cons.IH)
    then show ?thesis using Suc by simp
  qed
qed

lemma extracted_from_all:
  assumes "length spans = length outs"
    and "\<forall>k \<in> {0..<length outs}. i + int k + 1 \<noteq> p \<longrightarrow> extract_message (outs ! k) p = Some (spans ! k)"
  shows "map snd (extracted_from outs i p) = without_own spans i p"
  using assms
proof (induction outs arbitrary: i spans)
  case Nil
  then show ?case by simp
next
  case (Cons out rest)
  from Cons.prems(1) obtain s ss where spans: "spans = s # ss" and len: "length ss = length rest"
    by (cases spans) auto
  have tl: "\<forall>k \<in> {0..<length rest}. i + 1 + int k + 1 \<noteq> p \<longrightarrow> extract_message (rest ! k) p = Some (ss ! k)"
  proof
    fix k assume "k \<in> {0..<length rest}"
    then have "Suc k \<in> {0..<length (out # rest)}" by simp
    with Cons.prems(2)
    have "i + int (Suc k) + 1 \<noteq> p \<longrightarrow> extract_message ((out # rest) ! Suc k) p = Some (spans ! Suc k)"
      by blast
    then show "i + 1 + int k + 1 \<noteq> p \<longrightarrow> extract_message (rest ! k) p = Some (ss ! k)"
      by (simp add: spans add.commute add.left_commute)
  qed
  have ih: "map snd (extracted_from rest (i + 1) p) = without_own ss (i + 1) p"
    using len tl by (rule Cons.IH)
  have "0 \<in> {0..<length (out # rest)}" by simp
  with Cons.prems(2)
  have hd: "i + int 0 + 1 \<noteq> p \<longrightarrow> extract_message ((out # rest) ! 0) p = Some (spans ! 0)"
    by blast
  show ?case
  proof (cases "i + 1 = p")
    case True
    then show ?thesis using ih spans by simp
  next
    case False
    then have "extract_message out p = Some s" using hd spans by simp
    then show ?thesis using False ih spans by simp
  qed
qed

lemma length_without_own:
  "length (without_own xs i p) =
     (if i < p \<and> p \<le> i + int (length xs) then length xs - 1 else length xs)"
proof (induction xs arbitrary: i)
  case Nil
  then show ?case by simp
next
  case (Cons x xs)
  show ?case
  proof (cases "i + 1 = p")
    case True
    then have "\<not> (i + 1 < p \<and> p \<le> i + 1 + int (length xs))" by simp
    then have "length (without_own xs (i + 1) p) = length xs" using Cons.IH[of "i + 1"] by auto
    then show ?thesis using True by simp
  next
    case False
    have "length (without_own xs (i + 1) p) =
      (if i + 1 < p \<and> p \<le> i + 1 + int (length xs) then length xs - 1 else length xs)"
      by (rule Cons.IH)
    moreover have "(i + 1 < p \<and> p \<le> i + 1 + int (length xs)) \<longleftrightarrow> (i < p \<and> p \<le> i + int (length (x # xs)))"
      using False by auto
    moreover have "i + 1 < p \<and> p \<le> i + 1 + int (length xs) \<Longrightarrow> 0 < length xs" by auto
    ultimately show ?thesis using False by auto
  qed
qed

lemma occurs_in_strstr: "occurs_in key s \<longleftrightarrow> strstr s key \<noteq> None"
  by (simp add: occurs_in_def strstr_None)

lemma extract_message_no_key:
  "\<not> occurs_in (target_key p) out \<Longrightarrow> extract_message out p = None"
  by (simp add: occurs_in_strstr extract_message_def)

lemma sorted_wrt_less_distinct: "sorted_wrt (<) (xs :: int list) \<Longrightarrow> distinct xs"
  by (induction xs) auto

lemma convert_loop_length:
  "length (fst (convert_loop outs i p (res, mc)))
     \<le> length res + 2 * sum_list (map length outs)"
proof (induction outs arbitrary: i res mc)
  case Nil
  then show ?case by simp
next
  case (Cons out rest)
  show ?case
  proof (cases "i + 1 = p")
    case True
    then show ?thesis using Cons.IH[of "i + 1" res mc] by simp
  next
    case False
    show ?thesis
    proof (cases "extract_message out p")
      case None
      then show ?thesis using False Cons.IH[of "i + 1" res mc] by simp
    next
      case (Some msg)
      from extract_message_Some[OF Some] have bs: "balanced_span msg"
        and le: "length msg \<le> length out" by blast+
      have "2 \<le> length msg" using balanced_span_last[OF bs] by blast
      then have one: "1 + length msg \<le> 2 * length out" using le by arith
      let ?res = "(if mc > 0 then res @ '','' else res) @ msg"
      have "length ?res \<le> length res + 1 + length msg" by simp
      then have l: "length ?res \<le> length res + 2 * length out" using one by arith
      have "length (fst (convert_loop rest (i + 1) p (?res, mc + 1)))
              \<le> length ?res + 2 * sum_list (map length rest)"
        by (rule Cons.IH)
      then have "length (fst (convert_loop rest (i + 1) p (?res, mc + 1)))
              \<le> length res + 2 * length out + 2 * sum_list (map length rest)"
        using l by arith
      then show ?thesis using False Some by simp
    qed
  qed
qed

lemma bytes_written_le:
  "bytes_written outs p \<le> 3 + 2 * sum_list (map length outs)"
proof -
  have "length (fst (convert_loop outs 0 p (''['', 0))) \<le> length ''['' + 2 * sum_list (map length outs)"
    by (rule convert_loop_length)
  then show ?thesis
    by (simp add: bytes_written_def convert_round1_to_messages_def convert_state_def)
qed

lemma total_size_fold:
  "fold (\<lambda>len total. total + len * 2) lens (acc :: 32 word) = acc + 2 * sum_list lens"
  by (induction lens arbitrary: acc) (simp_all add: algebra_simps)

lemma word_of_int_sum_sint:
  "(word_of_int (\<Sum>len\<leftarrow>lens. sint len) :: 32 word) = sum_list lens"
  by (induction lens) simp_all

lemma total_size_of_int:
  "total_size lens = word_of_int (1000 + (\<Sum>len\<leftarrow>lens. 2 * sint len))"
proof -
  have "(\<Sum>len\<leftarrow>lens. 2 * sint len) = 2 * (\<Sum>len\<leftarrow>lens. sint len)"
    by (induction lens) simp_all
  then show ?thesis
    by (simp add: total_size_def total_size_fold word_of_int_sum_sint)
qed

lemma reported_lengths:
  assumes "length lens = length outs"
    and "\<forall>i \<in> {0..<length outs}. sint (lens ! i) = int (length (outs ! i))"
  shows "(\<Sum>len\<leftarrow>lens. 2 * sint len) = 2 * int (sum_list (map length outs))"
  using assms
proof (induction outs arbitrary: lens)
  case Nil
  then show ?case by simp
next
  case (Cons out rest)
  from Cons.prems(1) obtain l ls where lens: "lens = l # ls" and len: "length ls = length rest"
    by (cases lens) auto
  have "0 \<in> {0..<length (out # rest)}" by simp
  with Cons.prems(2) have "sint (lens ! 0) = int (length ((out # rest) ! 0))" by blast
  then have h: "sint l = int (length out)" by (simp add: lens)
  have t: "\<forall>i \<in> {0..<length rest}. sint (ls ! i) = int (length (rest ! i))"
  proof
    fix i assume "i \<in> {0..<length rest}"
    then have "Suc i \<in> {0..<length (out # rest)}" by simp
    with Cons.prems(2) have "sint (lens ! Suc i) = int (length ((out # rest) ! Suc i))" by blast
    then show "sint (ls ! i) = int (length (rest ! i))" by (simp add: lens)
  qed
  have "(\<Sum>len\<leftarrow>ls. 2 * sint len) = 2 * int (sum_list (map length rest))"
    using len t by (rule Cons.IH)
  then show ?case using h by (simp add: lens)
qed

section \<open>The first occurrence of a key in an encoded envelope\<close>

lemma digit_value_nth: "k < 10 \<Longrightarrow> digit_value (''0123456789'' ! k) = k"
proof -
  assume "k < 10"
  then have "k = 0 \<or> k = 1 \<or> k = 2 \<or> k = 3 \<or> k = 4 \<or> k = 5 \<or> k = 6 \<or> k = 7 \<or> k = 8 \<or> k = 9"
    by arith
  then show ?thesis
    by (elim disjE) (simp_all add: digit_value_def)
qed

lemma dec_value_dec_digits: "dec_value (dec_digits n) = n"
proof (induction n rule: dec_digits.induct)
  case (1 n)
  show ?case
  proof (cases "n < 10")
    case True
    then show ?thesis
      by (subst dec_digits.simps) (simp add: dec_value_def digit_value_nth)
  next
    case False
    then have ih: "dec_value (dec_digits (n div 10)) = n div 10" using 1 by simp
    have "dec_value (dec_digits n) = 10 * dec_value (dec_digits (n div 10)) + digit_value (''0123456789'' ! (n mod 10))"
      using False by (subst dec_digits.simps) (simp add: dec_value_def)
    then show ?thesis using ih by (simp add: digit_value_nth)
  qed
qed

lemma dec_digits_inj: "dec_digits a = dec_digits b \<Longrightarrow> a = b"
  by (metis dec_value_dec_digits)

lemma dec_digits_not_Nil: "dec_digits n \<noteq> []"
  by (subst dec_digits.simps) simp

lemma sprintf_d_inj: "sprintf_d a = sprintf_d b \<Longrightarrow> a = b"
proof -
  assume e: "sprintf_d a = sprintf_d b"
  have nm: "\<And>n m. CHR ''-'' # dec_digits n \<noteq> dec_digits m"
  proof
    fix n m assume "CHR ''-'' # dec_digits n = dec_digits m"
    then have "CHR ''-'' \<in> set (dec_digits m)" by (metis list.set_intros(1))
    then show False using dec_digits_set[of m] by auto
  qed
  show "a = b"
  proof (cases "a < 0"; cases "b < 0")
    assume "a < 0" "b < 0"
    then have "nat (- a) = nat (- b)" using e dec_digits_inj by (simp add: sprintf_d_def)
    then show ?thesis using \<open>a < 0\<close> \<open>b < 0\<close> by simp
  next
    assume "a < 0" "\<not> b < 0"
    then show ?thesis using e nm by (simp add: sprintf_d_def)
  next
    assume "\<not> a < 0" "b < 0"
    then show ?thesis using e nm[of "nat (- b)" "nat a"] by (simp add: sprintf_d_def)
  next
    assume "\<not> a < 0" "\<not> b < 0"
    then have "nat a = nat b" using e dec_digits_inj by (simp add: sprintf_d_def)
    then show ?thesis using \<open>\<not> a < 0\<close> \<open>\<not> b < 0\<close> by simp
  qed
qed

lemma sprintf_d_set: "set (sprintf_d a) \<subseteq> set ''-0123456789''"
proof -
  have sub: "\<And>n. set (dec_digits n) \<subseteq> set ''-0123456789''"
  proof -
    fix n
    have "set ''0123456789'' \<subseteq> set ''-0123456789''" by (rule set_subset_Cons)
    with dec_digits_set[of n] show "set (dec_digits n) \<subseteq> set ''-0123456789''"
      by (rule subset_trans)
  qed
  show ?thesis
  proof (cases "a < 0")
    case True
    have "CHR ''-'' \<in> set ''-0123456789''" by simp
    then have "set (CHR ''-'' # dec_digits (nat (- a))) \<subseteq> set ''-0123456789''"
      using sub[of "nat (- a)"] by (simp only: set_simps insert_subset)
    then show ?thesis using True by (simp only: sprintf_d_def if_True)
  next
    case False
    then show ?thesis using sub[of "nat a"] by (simp only: sprintf_d_def if_False)
  qed
qed

lemma sprintf_d_not_Nil: "sprintf_d a \<noteq> []"
  by (simp add: sprintf_d_def dec_digits_not_Nil)

lemma key_first_no_start: "key_first key pre \<longleftrightarrow> no_start key pre key"
  by (simp add: key_first_def no_start_def)

lemma no_start_append:
  "no_start key (a1 @ a2) b \<longleftrightarrow> no_start key a1 (a2 @ b) \<and> no_start key a2 b"
proof
  assume l: "no_start key (a1 @ a2) b"
  have "no_start key a1 (a2 @ b)"
    unfolding no_start_def
  proof
    fix i assume "i \<in> {0..<length a1}"
    then have "i \<in> {0..<length (a1 @ a2)}" by simp
    with l have "\<not> prefix key (drop i ((a1 @ a2) @ b))" unfolding no_start_def by blast
    then show "\<not> prefix key (drop i (a1 @ a2 @ b))" by simp
  qed
  moreover have "no_start key a2 b"
    unfolding no_start_def
  proof
    fix i assume "i \<in> {0..<length a2}"
    then have "length a1 + i \<in> {0..<length (a1 @ a2)}" by simp
    with l have "\<not> prefix key (drop (length a1 + i) ((a1 @ a2) @ b))"
      unfolding no_start_def by blast
    then show "\<not> prefix key (drop i (a2 @ b))" by simp
  qed
  ultimately show "no_start key a1 (a2 @ b) \<and> no_start key a2 b" by simp
next
  assume r: "no_start key a1 (a2 @ b) \<and> no_start key a2 b"
  show "no_start key (a1 @ a2) b"
    unfolding no_start_def
  proof
    fix i assume i: "i \<in> {0..<length (a1 @ a2)}"
    show "\<not> prefix key (drop i ((a1 @ a2) @ b))"
    proof (cases "i < length a1")
      case True
      then have "i \<in> {0..<length a1}" by simp
      with r have "\<not> prefix key (drop i (a1 @ a2 @ b))" unfolding no_start_def by blast
      then show ?thesis by simp
    next
      case False
      then have "i - length a1 \<in> {0..<length a2}" using i by auto
      with r have "\<not> prefix key (drop (i - length a1) (a2 @ b))" unfolding no_start_def by blast
      then show ?thesis using False by simp
    qed
  qed
qed

lemma no_start_hd:
  assumes "key \<noteq> []" and "\<forall>c \<in> set a. c \<noteq> hd key"
  shows "no_start key a b"
  unfolding no_start_def
proof
  fix i assume i: "i \<in> {0..<length a}"
  then have "drop i (a @ b) = (a ! i) # drop (Suc i) (a @ b)"
    by (simp add: Cons_nth_drop_Suc nth_append)
  moreover have "a ! i \<noteq> hd key" using assms(2) i by simp
  ultimately show "\<not> prefix key (drop i (a @ b))"
    using assms(1) by (cases key) auto
qed

lemma no_start_inside:
  assumes "c \<notin> set key" and "\<not> occurs_in key a"
  shows "no_start key a (c # b)"
  unfolding no_start_def
proof
  fix i assume i: "i \<in> {0..<length a}"
  show "\<not> prefix key (drop i (a @ c # b))"
  proof
    assume "prefix key (drop i (a @ c # b))"
    then have "prefix key (drop i a @ c # b)" using i by simp
    then have "prefix key (drop i a) \<or> (\<exists>us. key = drop i a @ us \<and> prefix us (c # b))"
      by (simp add: prefix_append)
    then show False
    proof
      assume "prefix key (drop i a)"
      moreover have "i \<in> {0..length a}" using i by simp
      ultimately have "occurs_in key a" unfolding occurs_in_def by blast
      with assms(2) show False by simp
    next
      assume "\<exists>us. key = drop i a @ us \<and> prefix us (c # b)"
      then obtain us where k: "key = drop i a @ us" and u: "prefix us (c # b)" by blast
      show False
      proof (cases us)
        case Nil
        then have "prefix key (drop i a)" using k by simp
        moreover have "i \<in> {0..length a}" using i by simp
        ultimately have "occurs_in key a" unfolding occurs_in_def by blast
        with assms(2) show False by simp
      next
        case (Cons u us')
        then have "u = c" using u by simp
        then have "c \<in> set key" using k Cons by simp
        with assms(1) show False by simp
      qed
    qed
  qed
qed

lemma prefix_same_stop:
  "c \<notin> set xs \<Longrightarrow> c \<notin> set ys \<Longrightarrow> prefix (xs @ c # a) (ys @ c # b) \<Longrightarrow> xs = ys"
proof (induction xs arbitrary: ys)
  case Nil
  then show ?case by (cases ys) auto
next
  case (Cons x xs)
  then show ?case by (cases ys) auto
qed

lemma no_start_other_key:
  assumes "q \<noteq> t"
  shows "no_start (target_key t) (target_key q) b"
proof -
  let ?K = "target_key t"
  let ?dq = "sprintf_d q"
  let ?dt = "sprintf_d t"
  have K: \<open>?K = CHR 0x22 # ?dt @ ''":''\<close> by (simp add: target_key_def)
  have hdK: "hd ?K = CHR 0x22" and neK: "?K \<noteq> []" by (simp_all add: K)
  have qt: "CHR 0x22 \<notin> set ?dt" "CHR 0x22 \<notin> set ?dq"
    using sprintf_d_set[of t] sprintf_d_set[of q] by auto
  have split: \<open>target_key q = [CHR 0x22] @ ?dq @ [CHR 0x22] @ [CHR '':'']\<close>
    by (simp add: target_key_def)
  have 1: \<open>no_start ?K [CHR 0x22] (?dq @ [CHR 0x22] @ [CHR '':''] @ b)\<close>
  proof -
    have \<open>\<not> prefix ?K (CHR 0x22 # ?dq @ CHR 0x22 # CHR '':'' # b)\<close>
    proof
      assume \<open>prefix ?K (CHR 0x22 # ?dq @ CHR 0x22 # CHR '':'' # b)\<close>
      then have \<open>prefix (?dt @ CHR 0x22 # '':'') (?dq @ CHR 0x22 # CHR '':'' # b)\<close>
        by (simp add: K)
      then have "?dt = ?dq" using qt by (rule prefix_same_stop[rotated 2])
      then have "t = q" by (rule sprintf_d_inj)
      with assms show False by simp
    qed
    then show ?thesis by (simp add: no_start_def)
  qed
  have 2: \<open>no_start ?K ?dq ([CHR 0x22] @ [CHR '':''] @ b)\<close>
    using neK qt(2) hdK by (intro no_start_hd) auto
  have 3: \<open>no_start ?K [CHR 0x22] ([CHR '':''] @ b)\<close>
  proof -
    have \<open>\<not> prefix ?K (CHR 0x22 # CHR '':'' # b)\<close>
    proof
      assume \<open>prefix ?K (CHR 0x22 # CHR '':'' # b)\<close>
      then have p: \<open>prefix (?dt @ ''":'') (CHR '':'' # b)\<close> by (simp add: K)
      obtain d ds where d: "?dt = d # ds" using sprintf_d_not_Nil[of t] by (cases ?dt) auto
      then have "d = CHR '':''" using p by simp
      then have "CHR '':'' \<in> set ?dt" using d by simp
      then show False using sprintf_d_set[of t] by auto
    qed
    then show ?thesis by (simp add: no_start_def)
  qed
  have 4: \<open>no_start ?K [CHR '':''] b\<close>
    using neK hdK by (intro no_start_hd) auto
  show ?thesis
    unfolding split using 1 2 3 4 by (simp only: no_start_append) simp
qed

lemma target_key_no_comma: "CHR '','' \<notin> set (target_key t)"
  using sprintf_d_set[of t] by (auto simp: target_key_def)

lemma no_start_entries:
  assumes "\<forall>(q, pl) \<in> set xs. q \<noteq> t \<and> \<not> occurs_in (target_key t) pl"
  shows "no_start (target_key t) (concat (map (\<lambda>e. encode_entry e @ '','') xs)) b"
  using assms
proof (induction xs)
  case Nil
  then show ?case by (simp add: no_start_def)
next
  case (Cons e xs)
  obtain q pl where e: "e = (q, pl)" by (cases e)
  have q: "q \<noteq> t" and pl: "\<not> occurs_in (target_key t) pl" using Cons.prems e by auto
  let ?rest = "concat (map (\<lambda>e. encode_entry e @ '','') xs)"
  have ih: "no_start (target_key t) ?rest b" using Cons by simp
  have a: "no_start (target_key t) (target_key q) (pl @ '','' @ ?rest @ b)"
    using q by (rule no_start_other_key)
  have b: "no_start (target_key t) pl (CHR '','' # ?rest @ b)"
    using target_key_no_comma pl by (rule no_start_inside)
  have c: "no_start (target_key t) '','' (?rest @ b)"
    by (rule no_start_hd) (simp_all add: target_key_def)
  have eq: "concat (map (\<lambda>e. encode_entry e @ '','') (e # xs))
          = target_key q @ pl @ '','' @ ?rest"
    by (simp add: e encode_entry_def)
  have b': "no_start (target_key t) pl ('','' @ ?rest @ b)" using b by simp
  show ?case
    unfolding eq using a b' c ih by (simp only: no_start_append append_assoc)
qed

lemma key_first_encoded_before:
  assumes "\<forall>(q, pl) \<in> set xs. q \<noteq> t \<and> \<not> occurs_in (target_key t) pl"
  shows "key_first (target_key t) (encoded_before xs)"
proof -
  have a: "no_start (target_key t) ''{'' (concat (map (\<lambda>e. encode_entry e @ '','') xs) @ target_key t)"
    by (rule no_start_hd) (simp_all add: target_key_def)
  have b: "no_start (target_key t) (concat (map (\<lambda>e. encode_entry e @ '','') xs)) (target_key t)"
    using assms by (rule no_start_entries)
  show ?thesis
    unfolding key_first_no_start encoded_before_def using a b by (simp only: no_start_append)
qed

section \<open>Spans that are never closed\<close>

lemma extract_message_never_closed:
  assumes "strstr out (target_key p) = Some target_pos"
    and "strchr target_pos CHR ''{'' = Some msg_start"
    and "never_closed msg_start"
  shows "extract_message out p = None"
proof -
  obtain bc n where c: "brace_scan msg_start 0 0 = (bc, n)" by (cases "brace_scan msg_start 0 0")
  have ne: "msg_start \<noteq> []" using strchr_Some[OF assms(2)] by blast
  from brace_scan_char[OF ne c]
  have ch: "0 < n" "n - 0 \<le> length msg_start" "bc = 0 + brace_depth (take (n - 0) msg_start)"
    by blast+
  have "n \<in> {1..length msg_start}" using ch(1,2) by simp
  with assms(3) have "0 < brace_depth (take n msg_start)" unfolding never_closed_def by blast
  then have "bc \<noteq> 0" using ch(3) by simp
  then show ?thesis by (simp add: extract_message_def assms(1,2) c)
qed

lemma ed25519_never_closed:
  assumes "strstr out (target_key p) = Some target_pos"
    and "strchr target_pos CHR ''{'' = Some msg_start"
    and "never_closed msg_start"
  shows "ed25519_formatted_input out p = Inr (''['' @ msg_start @ '']'')"
proof -
  obtain bc n where c: "brace_scan msg_start 0 0 = (bc, n)" by (cases "brace_scan msg_start 0 0")
  have ne: "msg_start \<noteq> []" using strchr_Some[OF assms(2)] by blast
  from brace_scan_char[OF ne c]
  have ch: "0 < n" "n - 0 \<le> length msg_start" "bc = 0 + brace_depth (take (n - 0) msg_start)"
    "0 < bc \<longrightarrow> n - 0 = length msg_start"
    by blast+
  have "n \<in> {1..length msg_start}" using ch(1,2) by simp
  with assms(3) have "0 < brace_depth (take n msg_start)" unfolding never_closed_def by blast
  then have "0 < bc" using ch(3) by simp
  then have "n = length msg_start" using ch(4) by simp
  then show ?thesis by (simp add: ed25519_formatted_input_def assms(1,2) c)
qed

section \<open>The bindings by kind\<close>

lemma binding_lists: "b \<in> set ecdsa_bindings \<or> b \<in> set quiet_bindings"
  by (cases b) (simp_all add: ecdsa_bindings_def quiet_bindings_def)

lemma ecdsa_binding_throws:
  "b \<in> set ecdsa_bindings \<Longrightarrow> result e \<noteq> 0 \<Longrightarrow>
     jni_binding b e = throw_runtime b (result e)"
  by (cases b)
    (simp_all add: ecdsa_bindings_def bytes_throwing_def pair_throwing_def init_throwing_def
      strings_throwing_def)

lemma quiet_binding_returns:
  "b \<in> set quiet_bindings \<Longrightarrow> result e \<noteq> 0 \<Longrightarrow>
     jni_binding b e =
       Returns (if b \<in> {keygenInit, refreshInit, ed25519SignInit} then JLong 0 else JNull)"
  by (cases b)
    (simp_all add: quiet_bindings_def init_quiet_def bytes_quiet_def strings_quiet_def)

lemma ecdsa_bytes_null_empty:
  "jni_binding ecdsaSignStep1
     \<lparr>result = 0, handle = 0, out1 = None, len1 = 0, out2 = None, len2 = 0\<rparr>
     = Returns (JByteArray [])"
  by (simp add: bytes_throwing_def new_byte_array_def)

section \<open>Senders for which nothing is extracted\<close>

lemma strchr_None: "strchr s ch = None \<longleftrightarrow> ch \<notin> set s"
  by (induction s) auto

lemma brace_scan_open:
  assumes "brace_scan (CHR ''{'' # cs) 0 0 = (bc, n)" and "bc \<noteq> 0"
  shows "never_closed (CHR ''{'' # cs)"
proof -
  let ?ms = "CHR ''{'' # cs"
  have ne: "?ms \<noteq> []" by simp
  from brace_scan_char[OF ne assms(1)]
  have ch: "0 < n" "n - 0 \<le> length ?ms" "bc = 0 + brace_depth (take (n - 0) ?ms)"
    "\<forall>k \<in> {1..<n - 0}. 0 < 0 + brace_depth (take k ?ms)"
    "0 < bc \<longrightarrow> n - 0 = length ?ms"
    by blast+
  have nonneg: "0 \<le> bc"
  proof (cases "n = 1")
    case True
    then show ?thesis using ch(3) by simp
  next
    case False
    then have k: "n - 1 \<in> {1..<n - 0}" using ch(1) by auto
    with ch(4) have p: "0 < brace_depth (take (n - 1) ?ms)" by auto
    have n1: "n - 1 < length ?ms" using ch(1,2) by simp
    then have "take n ?ms = take (n - 1) ?ms @ [?ms ! (n - 1)]"
      using ch(1) take_Suc_conv_app_nth[of "n - 1" ?ms] by simp
    then have "brace_depth (take n ?ms) = brace_depth (take (n - 1) ?ms) + brace_depth [?ms ! (n - 1)]"
      by (simp only: brace_depth_append)
    moreover have "- 1 \<le> brace_depth [?ms ! (n - 1)]" by simp
    ultimately show ?thesis using p ch(3) by simp
  qed
  then have pos: "0 < bc" using assms(2) by simp
  then have full: "n = length ?ms" using ch(5) by simp
  show ?thesis
    unfolding never_closed_def
  proof
    fix k assume k: "k \<in> {1..length ?ms}"
    show "0 < brace_depth (take k ?ms)"
    proof (cases "k = length ?ms")
      case True
      then show ?thesis using pos ch(3) full by simp
    next
      case False
      then have "k \<in> {1..<n - 0}" using k full by auto
      with ch(4) show ?thesis by auto
    qed
  qed
qed

lemma extract_message_None_iff:
  "extract_message out p = None \<longleftrightarrow>
     (case strstr out (target_key p) of
        None \<Rightarrow> True
      | Some target_pos \<Rightarrow>
          (case strchr target_pos CHR ''{'' of
             None \<Rightarrow> True
           | Some msg_start \<Rightarrow> never_closed msg_start))"
proof (cases "strstr out (target_key p)")
  case None
  then show ?thesis by (simp add: extract_message_def)
next
  case (Some target_pos)
  show ?thesis
  proof (cases "strchr target_pos CHR ''{''")
    case None
    then show ?thesis using Some by (simp add: extract_message_def)
  next
    case (Some msg_start)
    note ms = this
    obtain cs where cs: "msg_start = CHR ''{'' # cs"
      using strchr_Some[OF ms] by (cases msg_start) auto
    obtain bc n where sc: "brace_scan msg_start 0 0 = (bc, n)"
      by (cases "brace_scan msg_start 0 0")
    show ?thesis
    proof
      assume "extract_message out p = None"
      then have "bc \<noteq> 0"
        using \<open>strstr out (target_key p) = Some target_pos\<close> ms sc
        by (simp add: extract_message_def split: if_splits)
      then have "never_closed msg_start" using sc brace_scan_open unfolding cs by blast
      then show "case strstr out (target_key p) of None \<Rightarrow> True
        | Some target_pos \<Rightarrow>
            (case strchr target_pos CHR ''{'' of None \<Rightarrow> True
             | Some msg_start \<Rightarrow> never_closed msg_start)"
        using \<open>strstr out (target_key p) = Some target_pos\<close> ms by simp
    next
      assume "case strstr out (target_key p) of None \<Rightarrow> True
        | Some target_pos \<Rightarrow>
            (case strchr target_pos CHR ''{'' of None \<Rightarrow> True
             | Some msg_start \<Rightarrow> never_closed msg_start)"
      then have "never_closed msg_start"
        using \<open>strstr out (target_key p) = Some target_pos\<close> ms by simp
      with \<open>strstr out (target_key p) = Some target_pos\<close> ms
      show "extract_message out p = None" by (rule extract_message_never_closed)
    qed
  qed
qed

lemma extracted_from_update_None:
  "extract_message (outs ! k) p = None \<Longrightarrow> extract_message x p = None \<Longrightarrow> k < length outs \<Longrightarrow>
     extracted_from (outs[k := x]) i p = extracted_from outs i p"
proof (induction outs arbitrary: i k)
  case Nil
  then show ?case by simp
next
  case (Cons out rest)
  show ?case
  proof (cases k)
    case 0
    then show ?thesis using Cons.prems by simp
  next
    case (Suc j)
    then have "extracted_from (rest[j := x]) (i + 1) p = extracted_from rest (i + 1) p"
      using Cons.prems by (intro Cons.IH) simp_all
    then show ?thesis using Suc by simp
  qed
qed

lemma extract_message_Nil: "extract_message [] p = None"
  by (simp add: extract_message_def target_key_def)

section \<open>The size of the result\<close>

lemma bytes_written_bound:
  assumes "length round1_lens = length outs"
    and "\<forall>i \<in> {0..<length outs}. sint (round1_lens ! i) = int (length (outs ! i))"
  shows "int (bytes_written outs p) \<le> 1000 + (\<Sum>len\<leftarrow>round1_lens. 2 * sint len) \<and>
         (1000 + (\<Sum>len\<leftarrow>round1_lens. 2 * sint len) < 2 ^ 31 \<longrightarrow>
            sint (total_size round1_lens) = 1000 + (\<Sum>len\<leftarrow>round1_lens. 2 * sint len))"
proof -
  let ?S = "\<Sum>len\<leftarrow>round1_lens. 2 * sint len"
  have S: "?S = 2 * int (sum_list (map length outs))"
    using assms by (rule reported_lengths)
  have "int (bytes_written outs p) \<le> int (3 + 2 * sum_list (map length outs))"
    using bytes_written_le[of outs p] by (simp only: of_nat_le_iff)
  then have a: "int (bytes_written outs p) \<le> 1000 + ?S" using S by simp
  have b: "1000 + ?S < 2 ^ 31 \<longrightarrow> sint (total_size round1_lens) = 1000 + ?S"
  proof
    assume hi: "1000 + ?S < 2 ^ 31"
    have lo: "- (2 ^ 31) \<le> 1000 + ?S" using S by simp
    have e: "sint (word_of_int (1000 + ?S) :: 32 word)
               = signed_take_bit (LENGTH(32) - 1) (1000 + ?S)"
      by (rule sint_sbintrunc')
    have "LENGTH(32) - 1 = (31::nat)" by simp
    with e have "sint (word_of_int (1000 + ?S) :: 32 word) = signed_take_bit 31 (1000 + ?S)"
      by (simp only:)
    then have "sint (total_size round1_lens) = signed_take_bit 31 (1000 + ?S)"
      by (simp only: total_size_of_int)
    also have "\<dots> = 1000 + ?S"
      using lo hi by (rule signed_take_bit_int_eq_self)
    finally show "sint (total_size round1_lens) = 1000 + ?S" .
  qed
  from a b show ?thesis by blast
qed

lemma brace_depth_no_brace:
  "CHR ''{'' \<notin> set xs \<Longrightarrow> CHR ''}'' \<notin> set xs \<Longrightarrow> brace_depth xs = 0"
  by (induction xs) auto

lemma balanced_span_no_brace:
  assumes "CHR ''{'' \<notin> set xs" and "CHR ''}'' \<notin> set xs"
  shows "balanced_span (''{'' @ xs @ ''}'')"
proof -
  let ?s = "''{'' @ xs @ ''}''"
  have d: "brace_depth ?s = 0"
    using assms by (simp add: brace_depth_append brace_depth_no_brace)
  have "\<forall>k \<in> {1..<length ?s}. 0 < brace_depth (take k ?s)"
  proof
    fix k assume k: "k \<in> {1..<length ?s}"
    then obtain j where j: "k = Suc j" "j \<le> length xs" by (cases k) auto
    then have t: "take k ?s = CHR ''{'' # take j xs" by simp
    have "CHR ''{'' \<notin> set (take j xs)" "CHR ''}'' \<notin> set (take j xs)"
      using assms by (auto dest: in_set_takeD)
    then have "brace_depth (take j xs) = 0" by (rule brace_depth_no_brace)
    then show "0 < brace_depth (take k ?s)" using t by simp
  qed
  with d show ?thesis by (simp add: balanced_span_def)
qed

lemma extract_big_output:
  \<open>extract_message big_output 1 = Some (''{"a":"'' @ replicate 1073741810 CHR ''a'' @ ''"}'')\<close>
proof -
  have k: \<open>target_key 1 = ''"1":''\<close> by (simp add: eval_simps)
  have kf: "key_first (target_key 1) ''{''" by (simp add: key_first_def k)
  have \<open>balanced_span (''{'' @ (''"a":"'' @ replicate 1073741810 CHR ''a'' @ ''"'') @ ''}'')\<close>
    by (rule balanced_span_no_brace) simp_all
  then have bs: \<open>balanced_span (''{"a":"'' @ replicate 1073741810 CHR ''a'' @ ''"}'')\<close>
    by simp
  have \<open>extract_message
          (''{'' @ target_key 1 @ (''{"a":"'' @ replicate 1073741810 CHR ''a'' @ ''"}'') @ ''}'') 1
        = Some (''{"a":"'' @ replicate 1073741810 CHR ''a'' @ ''"}'')\<close>
    using kf bs by (rule extract_message_located)
  moreover have \<open>''{'' @ target_key 1 @ (''{"a":"'' @ replicate 1073741810 CHR ''a'' @ ''"}'') @ ''}''
      = big_output\<close>
    by (simp add: k big_output_def)
  ultimately show ?thesis by simp
qed

section \<open>The claims\<close>

text \<open>
  C1, as stated, does not hold: the scan counts every brace byte, also one inside a string
  literal of the payload. Below, the payload of party 2 has a closing brace in a string, and
  the extraction stops there.
\<close>

theorem extract_round_trip_counterexample:
  \<open>encode [(2, ''{"d":"}"}'')] = ''{"2":{"d":"}"}}'' \<and>
    extract_message ''{"2":{"d":"}"}}'' 2 = Some ''{"d":"}'' \<and>
    extract_message (encode [(2, ''{"d":"}"}'')]) 2 \<noteq> Some ''{"d":"}"}''\<close>
  by (simp add: encode_def encode_entry_def eval_simps)

text \<open>
  C1, amended: for every envelope and every PartyId \<open>t\<close> with an entry in it, if the
  payload of \<open>t\<close> is a brace-balanced span and no entry written before it has the key
  of \<open>t\<close> or contains the bytes of that key in its payload, then extracting the entry of
  \<open>t\<close> from the encoded envelope returns exactly the payload stored for \<open>t\<close>. Bytes
  other than braces, brackets among them, and the entries behind are not restricted. The
  condition on the payload cannot be dropped: the payload is returned only if it is such a
  span.
\<close>

theorem extract_round_trip:
  assumes "\<forall>(q, pl) \<in> set xs. q \<noteq> t \<and> \<not> occurs_in (target_key t) pl"
  shows "extract_message (encode (xs @ (t, payload) # ys)) t = Some payload
           \<longleftrightarrow> balanced_span payload"
proof
  assume "extract_message (encode (xs @ (t, payload) # ys)) t = Some payload"
  then show "balanced_span payload" using extract_message_Some by blast
next
  assume b: "balanced_span payload"
  have "key_first (target_key t) (encoded_before xs)"
    using assms by (rule key_first_encoded_before)
  then show "extract_message (encode (xs @ (t, payload) # ys)) t = Some payload"
    unfolding encode_split using b by (rule extract_message_located)
qed

theorem extract_round_trip_witness:
  \<open>balanced_span ''{"m":"]["}'' \<and>
    \<not> occurs_in (target_key 2) ''{"k":"[2]"}'' \<and>
    extract_message
      (encode ([(1, ''{"k":"[2]"}'')] @ (2, ''{"m":"]["}'') # [(3, ''{"2":{}}'')])) 2
      = Some ''{"m":"]["}''\<close>
proof -
  have a: \<open>balanced_span ''{"m":"]["}''\<close> by code_simp
  have b: \<open>\<forall>(q, pl) \<in> set [(1::int, ''{"k":"[2]"}'')]. q \<noteq> 2 \<and> \<not> occurs_in (target_key 2) pl\<close>
    by (simp add: occurs_in_strstr eval_simps)
  have c: \<open>extract_message
      (encode ([(1, ''{"k":"[2]"}'')] @ (2, ''{"m":"]["}'') # [(3, ''{"2":{}}'')])) 2
      = Some ''{"m":"]["}''\<close>
    using a by (rule iffD2[OF extract_round_trip[OF b]])
  have b': \<open>\<not> occurs_in (target_key 2) ''{"k":"[2]"}''\<close> using b by simp
  show ?thesis by (rule conjI[OF a conjI[OF b' c]])
qed

text \<open>
  C2, as stated, does not hold: the key is searched with \<^verbatim>\<open>strstr\<close> from the start of
  the output, with no regard to depth. Below, the payload of party 1 contains the key of
  party 2 and is written first; the extraction for party 2 returns the object inside it.
\<close>

theorem key_location_counterexample:
  \<open>encode [(1, ''{"x":{"2":{"bad":1}}}''), (2, ''{"ok":1}'')]
      = ''{"1":{"x":{"2":{"bad":1}}},"2":{"ok":1}}'' \<and>
    extract_message ''{"1":{"x":{"2":{"bad":1}}},"2":{"ok":1}}'' 2 = Some ''{"bad":1}'' \<and>
    extract_message (encode [(1, ''{"x":{"2":{"bad":1}}}''), (2, ''{"ok":1}'')]) 2
      \<noteq> Some ''{"ok":1}''\<close>
  by (simp add: encode_def encode_entry_def eval_simps)

text \<open>
  C2, amended: the search stops at the first occurrence of the key bytes. In every envelope
  in which the key of \<open>t\<close> also occurs inside the payload of a sibling entry that is
  written after the entry of \<open>t\<close>, and in no payload and under no key before it, the
  search stops at the top-level key of \<open>t\<close> and the extraction returns the payload
  stored under it.
\<close>

theorem key_location:
  assumes "balanced_span payload"
    and "\<forall>(q, pl) \<in> set xs. q \<noteq> t \<and> \<not> occurs_in (target_key t) pl"
    and "(s, sp) \<in> set ys" and "occurs_in (target_key t) sp"
  shows "strstr (encode (xs @ (t, payload) # ys)) (target_key t)
           = Some (target_key t @ payload @ concat (map (\<lambda>e. '','' @ encode_entry e) ys) @ ''}'') \<and>
         extract_message (encode (xs @ (t, payload) # ys)) t = Some payload"
proof -
  have kf: "key_first (target_key t) (encoded_before xs)"
    using assms(2) by (rule key_first_encoded_before)
  have "strstr (encode (xs @ (t, payload) # ys)) (target_key t)
           = Some (target_key t @ payload @ concat (map (\<lambda>e. '','' @ encode_entry e) ys) @ ''}'')"
    unfolding encode_split using kf by (rule strstr_first)
  moreover have "extract_message (encode (xs @ (t, payload) # ys)) t = Some payload"
    unfolding encode_split using kf assms(1) by (rule extract_message_located)
  ultimately show ?thesis by blast
qed

theorem key_location_witness:
  \<open>occurs_in (target_key 2) ''{"x":{"2":{"bad":1}}}'' \<and>
    extract_message (encode ([] @ (2, ''{"ok":1}'') # [(1, ''{"x":{"2":{"bad":1}}}'')])) 2
      = Some ''{"ok":1}''\<close>
proof -
  have a: \<open>balanced_span ''{"ok":1}''\<close> by code_simp
  have b: \<open>\<forall>(q, pl) \<in> set []. q \<noteq> (2::int) \<and> \<not> occurs_in (target_key 2) pl\<close> by simp
  have c: \<open>(1::int, ''{"x":{"2":{"bad":1}}}'') \<in> set [(1, ''{"x":{"2":{"bad":1}}}'')]\<close> by simp
  have d: \<open>occurs_in (target_key 2) ''{"x":{"2":{"bad":1}}}''\<close>
    by (simp add: occurs_in_strstr eval_simps)
  have e: \<open>extract_message (encode ([] @ (2, ''{"ok":1}'') # [(1, ''{"x":{"2":{"bad":1}}}'')])) 2
      = Some ''{"ok":1}''\<close>
    by (rule conjunct2[OF key_location[OF a b c d]])
  show ?thesis by (rule conjI[OF d e])
qed

text \<open>
  C3, as stated, does not hold: a sender whose output has no entry for the target is passed
  over by \<^verbatim>\<open>if (!target_pos) continue;\<close>, and the routine returns the batch of the
  remaining senders. No error value exists in the routine, and the drivers hand the batch to
  the engine as it is. The inline aggregation of \<^verbatim>\<open>test_refresh.c\<close> does the same. Below,
  party 2 has no entry for party 1, and the batch for party 1 holds one message instead of
  two.
\<close>

theorem missing_entry_counterexample:
  \<open>strstr ([''{"2":{"a":1},"3":{"b":2}}'', ''{"3":{"d":4}}'', ''{"1":{"e":5},"2":{"f":6}}''] ! 1)
       (target_key 1) = None \<and>
    convert_round1_to_messages
      [''{"2":{"a":1},"3":{"b":2}}'', ''{"3":{"d":4}}'', ''{"1":{"e":5},"2":{"f":6}}''] 1
      = ''[{"e":5}]'' \<and>
    message_count
      [''{"2":{"a":1},"3":{"b":2}}'', ''{"3":{"d":4}}'', ''{"1":{"e":5},"2":{"f":6}}''] 1 = 1 \<and>
    refresh_aggregate
      [''{"2":{"a":1},"3":{"b":2}}'', ''{"3":{"d":4}}'', ''{"1":{"e":5},"2":{"f":6}}''] 0
      = ''[{"e":5}]''\<close>
  by (simp add: convert_round1_to_messages_def message_count_def convert_state_def
       refresh_aggregate_def refresh_extract_def eval_simps)

text \<open>
  C3, amended: the routine locates no entry for \<open>p\<close> in the output of another party
  \<open>q\<close> exactly when the bytes \<^verbatim>\<open>"p":\<close> do not occur in it, or no \<^verbatim>\<open>{\<close> follows
  their first occurrence, or the span that opens at that \<^verbatim>\<open>{\<close> never closes
  (\<open>extract_message_None_iff\<close>). In each of these cases the routine contributes nothing for
  \<open>q\<close> and still returns a batch: the same one as if the output of \<open>q\<close> were empty, with
  fewer than \<open>N - 1\<close> messages. Below, the entry of party 3 for party 2 is cut off.
\<close>

theorem missing_entry_skipped:
  assumes "1 \<le> p" and "p \<le> int (length outs)"
    and "1 \<le> q" and "q \<le> int (length outs)" and "q \<noteq> p"
    and "case strstr (outs ! nat (q - 1)) (target_key p) of
           None \<Rightarrow> True
         | Some target_pos \<Rightarrow>
             (case strchr target_pos CHR ''{'' of
                None \<Rightarrow> True
              | Some msg_start \<Rightarrow> never_closed msg_start)"
  shows "convert_round1_to_messages outs p = ''['' @ join_comma (peer_messages outs p) @ '']'' \<and>
         convert_round1_to_messages (outs[nat (q - 1) := []]) p
           = convert_round1_to_messages outs p \<and>
         length (peer_messages outs p) < length outs - 1 \<and>
         message_count outs p < int (length outs) - 1"
proof -
  let ?E = "extracted_from outs 0 p"
  let ?N = "length outs"
  have none: "extract_message (outs ! nat (q - 1)) p = None"
    using assms(6) by (rule iffD2[OF extract_message_None_iff])
  have sub: "set (map fst ?E) \<subseteq> {1..int ?N} - {p, q}"
  proof
    fix x assume "x \<in> set (map fst ?E)"
    then obtain m where "(x, m) \<in> set ?E" by auto
    from extracted_from_fst[OF this]
    have x: "0 < x" "x \<le> 0 + int ?N" "x \<noteq> p" "extract_message (outs ! nat (x - 0 - 1)) p = Some m"
      by blast+
    have "x \<noteq> q" using x(4) none by auto
    then show "x \<in> {1..int ?N} - {p, q}" using x by auto
  qed
  have "distinct (map fst ?E)"
    using extracted_from_sorted by (rule sorted_wrt_less_distinct)
  then have "length (map fst ?E) = card (set (map fst ?E))"
    by (rule distinct_card[symmetric])
  also have "\<dots> \<le> card ({1..int ?N} - {p, q})"
    using sub by (intro card_mono) auto
  also have "\<dots> = card {1..int ?N} - card {p, q}"
    using assms(1-4) by (intro card_Diff_subset) auto
  also have "\<dots> = ?N - 2" using assms(5) by simp
  finally have le: "length ?E \<le> ?N - 2" by simp
  have two: "2 \<le> ?N"
  proof -
    have "{p, q} \<subseteq> {1..int ?N}" using assms(1-4) by auto
    then have "card {p, q} \<le> card {1..int ?N}" by (intro card_mono) auto
    then show ?thesis using assms(5) by simp
  qed
  have lt: "length ?E < ?N - 1" using le two by arith
  have pm: "length (peer_messages outs p) = length ?E"
    using peer_messages_eq[of outs p] by (metis length_map)
  have mc: "message_count outs p < int ?N - 1"
    using lt two by (simp add: message_count_eq)
  have "nat (q - 1) < ?N" using assms(3,4) by simp
  with none extract_message_Nil
  have "extracted_from (outs[nat (q - 1) := []]) 0 p = ?E"
    by (intro extracted_from_update_None)
  then have upd: "convert_round1_to_messages (outs[nat (q - 1) := []]) p
           = convert_round1_to_messages outs p"
    by (simp add: convert_shape)
  from lt pm mc upd show ?thesis by (simp add: convert_eq_peer_messages)
qed

theorem missing_entry_skipped_witness:
  \<open>strstr ''{"1":{"e":5},"2":{"f":6'' (target_key 2) = Some ''"2":{"f":6'' \<and>
    strchr ''"2":{"f":6'' CHR ''{'' = Some ''{"f":6'' \<and>
    never_closed ''{"f":6'' \<and>
    message_count
      [''{"2":{"a":1},"3":{"b":2}}'', ''{"1":{"c":3},"3":{"d":4}}'',
       ''{"1":{"e":5},"2":{"f":6''] 2 < int 3 - 1 \<and>
    convert_round1_to_messages
      [''{"2":{"a":1},"3":{"b":2}}'', ''{"1":{"c":3},"3":{"d":4}}'',
       ''{"1":{"e":5},"2":{"f":6''] 2 = ''[{"a":1}]''\<close>
proof -
  let ?outs = \<open>[''{"2":{"a":1},"3":{"b":2}}'', ''{"1":{"c":3},"3":{"d":4}}'',
       ''{"1":{"e":5},"2":{"f":6'']\<close>
  have s: \<open>strstr ''{"1":{"e":5},"2":{"f":6'' (target_key 2) = Some ''"2":{"f":6''\<close>
    by (simp add: eval_simps)
  have c: \<open>strchr ''"2":{"f":6'' CHR ''{'' = Some ''{"f":6''\<close>
    by simp
  have \<open>extract_message ''{"1":{"e":5},"2":{"f":6'' 2 = None\<close>
    by (simp add: eval_simps)
  from iffD1[OF extract_message_None_iff this]
  have n: \<open>never_closed ''{"f":6''\<close>
    by (simp only: s c option.case)
  have hq: "case strstr (?outs ! nat (3 - 1)) (target_key 2) of
           None \<Rightarrow> True
         | Some target_pos \<Rightarrow>
             (case strchr target_pos CHR ''{'' of
                None \<Rightarrow> True
              | Some msg_start \<Rightarrow> never_closed msg_start)"
    using s c n by simp
  have pm: \<open>peer_messages ?outs 2 = [''{"a":1}'']\<close>
    by (simp add: peer_messages_def eval_simps)
  from missing_entry_skipped[of 2 ?outs 3, OF _ _ _ _ _ hq]
  have "convert_round1_to_messages ?outs 2 = ''['' @ join_comma (peer_messages ?outs 2) @ '']''"
    and "message_count ?outs 2 < int (length ?outs) - 1"
    by simp_all
  with s c n pm show ?thesis by simp
qed

text \<open>
  C4. In \<^verbatim>\<open>convert_round1_to_messages\<close> a span whose depth never returns to zero is
  rejected (\<open>extract_message_never_closed\<close>). The inline extraction in \<^verbatim>\<open>main\<close> of
  \<^verbatim>\<open>test_complete_ed25519.c\<close> has the same scan without the test that follows it, and
  hands the unclosed rest of the input to the engine (\<open>ed25519_never_closed\<close>). Below,
  the output of party 2 is cut off inside the entry for party 1.
\<close>

theorem ed25519_partial_span:
  \<open>ed25519_formatted_input ''{"1":{"a":1'' 1 = Inr ''[{"a":1]''\<close>
  by (simp add: ed25519_formatted_input_def eval_simps)

text \<open>
  C5, as stated, does not hold: the routine reads the span at the first occurrence of the key
  bytes, wherever it is. Below, the output of party 2 holds a brace-balanced entry addressed
  to party 1, after a payload for party 3 in which the bytes \<^verbatim>\<open>"1":\<close> occur first; the
  span found there never closes, party 2 is passed over, and the batch for party 1 holds
  one message instead of two.
\<close>

theorem routing_complete_counterexample:
  \<open>target_key 1 = ''"1":'' \<and>
    contains_entry ''{"3":{"1":"{{{{"},"1":{"a":1}}'' 1 ''{"a":1}'' \<and>
    contains_entry ''{"1":{"e":5},"2":{"f":6}}'' 1 ''{"e":5}'' \<and>
    convert_round1_to_messages
      [''{"2":{"a":1},"3":{"b":2}}'', ''{"3":{"1":"{{{{"},"1":{"a":1}}'',
       ''{"1":{"e":5},"2":{"f":6}}''] 1 = ''[{"e":5}]'' \<and>
    message_count
      [''{"2":{"a":1},"3":{"b":2}}'', ''{"3":{"1":"{{{{"},"1":{"a":1}}'',
       ''{"1":{"e":5},"2":{"f":6}}''] 1 = 1\<close>
proof -
  have a: \<open>balanced_span ''{"a":1}''\<close> and b: \<open>balanced_span ''{"e":5}''\<close> by code_simp+
  have c: \<open>occurs_in (target_key 1 @ ''{"a":1}'') ''{"3":{"1":"{{{{"},"1":{"a":1}}''\<close>
    and d: \<open>occurs_in (target_key 1 @ ''{"e":5}'') ''{"1":{"e":5},"2":{"f":6}}''\<close>
    by (simp_all add: occurs_in_strstr eval_simps)
  have e: \<open>convert_round1_to_messages
      [''{"2":{"a":1},"3":{"b":2}}'', ''{"3":{"1":"{{{{"},"1":{"a":1}}'',
       ''{"1":{"e":5},"2":{"f":6}}''] 1 = ''[{"e":5}]''\<close>
    and f: \<open>message_count
      [''{"2":{"a":1},"3":{"b":2}}'', ''{"3":{"1":"{{{{"},"1":{"a":1}}'',
       ''{"1":{"e":5},"2":{"f":6}}''] 1 = 1\<close>
    by (simp_all add: convert_round1_to_messages_def message_count_def convert_state_def
         eval_simps)
  have k: \<open>target_key 1 = ''"1":''\<close> by (simp add: eval_simps)
  have \<open>contains_entry ''{"3":{"1":"{{{{"},"1":{"a":1}}'' 1 ''{"a":1}''\<close>
    and \<open>contains_entry ''{"1":{"e":5},"2":{"f":6}}'' 1 ''{"e":5}''\<close>
    using a b c d by (simp_all only: contains_entry_def simp_thms)
  with k e f show ?thesis by (simp only: simp_thms)
qed

text \<open>
  C5, amended: in a round of \<open>N\<close> parties in which the output of every party other than
  \<open>p\<close> has, directly after the first occurrence of the bytes \<^verbatim>\<open>"p":\<close>, a
  brace-balanced entry, the batch computed for \<open>p\<close> holds exactly \<open>N - 1\<close> messages,
  that entry of each other party in ascending order, and nothing of it depends on the output
  of \<open>p\<close> itself.
\<close>

theorem routing_complete:
  assumes "1 \<le> p" and "p \<le> int (length outs)" and "length spans = length outs"
    and "\<forall>i \<in> {0..<length outs}. int i + 1 \<noteq> p \<longrightarrow> located_entry (outs ! i) p (spans ! i)"
  shows "convert_round1_to_messages outs p = ''['' @ join_comma (without_own spans 0 p) @ '']'' \<and>
         message_count outs p = int (length outs) - 1 \<and>
         length (without_own spans 0 p) = length outs - 1 \<and>
         (\<forall>x. convert_round1_to_messages (outs[nat (p - 1) := x]) p
                = convert_round1_to_messages outs p)"
proof -
  have ex: "\<forall>k \<in> {0..<length outs}. 0 + int k + 1 \<noteq> p \<longrightarrow> extract_message (outs ! k) p = Some (spans ! k)"
    using assms(4) located_entry_extract by simp
  have m: "map snd (extracted_from outs 0 p) = without_own spans 0 p"
    using assms(3) ex by (rule extracted_from_all)
  have l: "length (without_own spans 0 p) = length outs - 1"
    using assms(1,2,3) by (simp add: length_without_own)
  have "length (extracted_from outs 0 p) = length (without_own spans 0 p)"
    using m by (metis length_map)
  then have c: "message_count outs p = int (length outs) - 1"
    using l assms(1,2) by (simp add: message_count_eq of_nat_diff)
  have u: "\<forall>x. convert_round1_to_messages (outs[nat (p - 1) := x]) p
                = convert_round1_to_messages outs p"
  proof
    fix x
    have "0 + int (nat (p - 1)) + 1 = p" using assms(1) by simp
    then have "extracted_from (outs[nat (p - 1) := x]) 0 p = extracted_from outs 0 p"
      by (rule extracted_from_update)
    then show "convert_round1_to_messages (outs[nat (p - 1) := x]) p
                = convert_round1_to_messages outs p"
      by (simp add: convert_shape)
  qed
  from m l c u show ?thesis by (simp add: convert_shape)
qed

theorem routing_complete_witness:
  \<open>target_key 2 = ''"2":'' \<and>
    located_entry ''{"2":{"a":1},"3":{"b":2}}'' 2 ''{"a":1}'' \<and>
    located_entry ''{"1":{"e":5},"2":{"f":6}}'' 2 ''{"f":6}'' \<and>
    convert_round1_to_messages
      [''{"2":{"a":1},"3":{"b":2}}'', ''{"1":{"c":3},"3":{"d":4}}'',
       ''{"1":{"e":5},"2":{"f":6}}''] 2 = ''[{"a":1},{"f":6}]'' \<and>
    message_count
      [''{"2":{"a":1},"3":{"b":2}}'', ''{"1":{"c":3},"3":{"d":4}}'',
       ''{"1":{"e":5},"2":{"f":6}}''] 2 = 2\<close>
proof -
  let ?outs = \<open>[''{"2":{"a":1},"3":{"b":2}}'', ''{"1":{"c":3},"3":{"d":4}}'',
       ''{"1":{"e":5},"2":{"f":6}}'']\<close>
  let ?spans = \<open>[''{"a":1}'', ''{}'', ''{"f":6}'']\<close>
  have k: \<open>target_key 2 = ''"2":''\<close> by (simp add: eval_simps)
  have a: \<open>located_entry ''{"2":{"a":1},"3":{"b":2}}'' 2 ''{"a":1}''\<close> by code_simp
  have b: \<open>located_entry ''{"1":{"e":5},"2":{"f":6}}'' 2 ''{"f":6}''\<close> by code_simp
  have h: "\<forall>i \<in> {0..<length ?outs}. int i + 1 \<noteq> 2 \<longrightarrow> located_entry (?outs ! i) 2 (?spans ! i)"
    using a b
    by (simp add: atLeastLessThan_def lessThan_def atLeast_def Ball_def less_Suc_eq nth_Cons')
  from routing_complete[of 2 ?outs ?spans, OF _ _ _ h] k a b show ?thesis by simp
qed

text \<open>
  C6. The aggregated batch is the byte string \<open>[\<close>, the extracted spans joined by
  commas, \<open>]\<close>; the spans stand in the order of the loop, which is the ascending
  order of the senders' party numbers (index \<open>i\<close> is party \<open>i + 1\<close>). The routine reads
  nothing but its arguments, so the result is a function of them.
\<close>

theorem aggregation_shape_and_order:
  "convert_round1_to_messages outs p =
     ''['' @ join_comma
       (List.map_filter
          (\<lambda>i. if int i + 1 = p then None else extract_message (outs ! i) p)
          [0..<length outs]) @ '']''"
  using convert_eq_peer_messages[of outs p] by (simp add: peer_messages_def)

theorem aggregation_shape_and_order_witness:
  \<open>convert_round1_to_messages
      [''{"2":{"a":1},"3":{"b":2}}'', ''{"1":{"c":3},"3":{"d":4}}'',
       ''{"1":{"e":5},"2":{"f":6}}''] 1 = ''[{"c":3},{"e":5}]''\<close>
  by (simp add: aggregation_shape_and_order eval_simps)

text \<open>
  C7, as stated, does not hold for every binding: the key generation, refresh and Ed25519
  bindings answer a nonzero result code with the value 0 or NULL and raise nothing (the
  source comments the first as "return a NULL pointer to signal the failure").
\<close>

theorem jni_error_counterexample:
  "jni_binding keygenInit \<lparr>result = - 1, handle = 0, out1 = None, len1 = 0, out2 = None, len2 = 0\<rparr>
     = Returns (JLong 0)"
  by (simp add: init_quiet_def)

text \<open>
  C7, amended: whenever the engine call returns a nonzero code, each of the ten ECDSA
  bindings raises \<^verbatim>\<open>java/lang/RuntimeException\<close> with a message that ends in the code
  in decimal; each of the twelve other bindings returns 0 (the three \<^verbatim>\<open>Init\<close> bindings)
  or NULL and raises no exception. Every binding that calls the engine for a result code
  is of one of the two kinds.
\<close>

theorem jni_error_propagation:
  assumes "result e \<noteq> 0"
  shows "(b \<in> set ecdsa_bindings \<longrightarrow>
            jni_binding b e =
              Throws ''java/lang/RuntimeException''
                (error_text b @ '': '' @ sprintf_d (result e))) \<and>
         (b \<in> set quiet_bindings \<longrightarrow>
            jni_binding b e =
              Returns (if b \<in> {keygenInit, refreshInit, ed25519SignInit}
                       then JLong 0 else JNull)) \<and>
         (b \<in> set ecdsa_bindings \<or> b \<in> set quiet_bindings)"
  using assms ecdsa_binding_throws[of b e] quiet_binding_returns[of b e] binding_lists[of b]
  by (simp add: throw_runtime_def)

theorem jni_error_propagation_witness:
  "jni_binding ecdsaSignStep1 \<lparr>result = - 3, handle = 0, out1 = None, len1 = 0, out2 = None, len2 = 0\<rparr> =
     Throws ''java/lang/RuntimeException''
       (''ECDSA'' @ zh_sign @ ''Step1'' @ zh_failed @ '': -3'') \<and>
   jni_binding keygenRound1 \<lparr>result = - 3, handle = 0, out1 = None, len1 = 0, out2 = None, len2 = 0\<rparr> =
     Returns JNull"
proof -
  let ?e = "\<lparr>result = - 3, handle = 0, out1 = None, len1 = 0, out2 = None, len2 = 0\<rparr>"
  have r: "result ?e \<noteq> 0" by simp
  have a: "ecdsaSignStep1 \<in> set ecdsa_bindings" by (simp add: ecdsa_bindings_def)
  have b: "keygenRound1 \<in> set quiet_bindings" by (simp add: quiet_bindings_def)
  from jni_error_propagation[OF r, of ecdsaSignStep1] a
  have 1: "jni_binding ecdsaSignStep1 ?e =
     Throws ''java/lang/RuntimeException'' (error_text ecdsaSignStep1 @ '': '' @ sprintf_d (result ?e))"
    by blast
  from jni_error_propagation[OF r, of keygenRound1] b
  have 2: "jni_binding keygenRound1 ?e = Returns JNull"
    by simp
  from 1 2 show ?thesis by (simp add: sprintf_d_def dec_digits.simps)
qed

text \<open>
  C8. A two-party ECDSA signing run completes with a signature exactly when five engine
  calls return zero: \<^verbatim>\<open>go_ecdsa_sign_step1\<close> on the handle of P1,
  \<^verbatim>\<open>go_ecdsa_sign_p2_step1\<close> on the handle of P2 with the buffer the first call produced,
  \<^verbatim>\<open>go_ecdsa_sign_p1_step2\<close> on the session of P1 with the two buffers of the second,
  \<^verbatim>\<open>go_ecdsa_sign_p2_step2\<close> on the session of P2 with the two buffers of the third (in
  swapped argument order), and \<^verbatim>\<open>go_ecdsa_sign_p1_step3\<close> on the session of P1 with the two
  buffers of the fourth, whose outputs are the signature. These five calls, driven by P1,
  P2, P1, P2, P1, are all the calls of the run, and every buffer is handed on unchanged, with
  no key search or span extraction in between.
\<close>

theorem ecdsa_sign_sequence:
  "ecdsa_sign_run eng p1_sign_handle p2_sign_handle = (Inr (signature_r, signature_s), tr) \<longleftrightarrow>
   (\<exists>p1_commit_data h1a p2_proof_data p2_r2_data h2a p1_proof_data p1_cmtd_data h1b
      p2_ek_data p2_affine_proof_data h2b h1c.
      go_ecdsa_sign_step1 eng p1_sign_handle = (0, p1_commit_data, h1a) \<and>
      go_ecdsa_sign_p2_step1 eng p2_sign_handle p1_commit_data
        = (0, (p2_proof_data, p2_r2_data), h2a) \<and>
      go_ecdsa_sign_p1_step2 eng h1a p2_proof_data p2_r2_data
        = (0, (p1_proof_data, p1_cmtd_data), h1b) \<and>
      go_ecdsa_sign_p2_step2 eng h2a p1_cmtd_data p1_proof_data
        = (0, (p2_ek_data, p2_affine_proof_data), h2b) \<and>
      go_ecdsa_sign_p1_step3 eng h1b p2_ek_data p2_affine_proof_data
        = (0, (signature_r, signature_s), h1c) \<and>
      tr = [call P1 ''go_ecdsa_sign_step1'' [] [p1_commit_data],
            call P2 ''go_ecdsa_sign_p2_step1'' [p1_commit_data] [p2_proof_data, p2_r2_data],
            call P1 ''go_ecdsa_sign_p1_step2'' [p2_proof_data, p2_r2_data]
              [p1_proof_data, p1_cmtd_data],
            call P2 ''go_ecdsa_sign_p2_step2'' [p1_cmtd_data, p1_proof_data]
              [p2_ek_data, p2_affine_proof_data],
            call P1 ''go_ecdsa_sign_p1_step3'' [p2_ek_data, p2_affine_proof_data]
              [signature_r, signature_s]])"
  (is "?L \<longleftrightarrow> ?R")
proof
  assume run: ?L
  obtain r1 c h1a where s1: "go_ecdsa_sign_step1 eng p1_sign_handle = (r1, c, h1a)"
    by (cases "go_ecdsa_sign_step1 eng p1_sign_handle")
  obtain r2 os2 h2a where "go_ecdsa_sign_p2_step1 eng p2_sign_handle c = (r2, os2, h2a)"
    by (cases "go_ecdsa_sign_p2_step1 eng p2_sign_handle c")
  moreover obtain pf r2d where "os2 = (pf, r2d)" by (cases os2)
  ultimately have s2: "go_ecdsa_sign_p2_step1 eng p2_sign_handle c = (r2, (pf, r2d), h2a)" by simp
  obtain r3 os3 h1b where "go_ecdsa_sign_p1_step2 eng h1a pf r2d = (r3, os3, h1b)"
    by (cases "go_ecdsa_sign_p1_step2 eng h1a pf r2d")
  moreover obtain p1pf cm where "os3 = (p1pf, cm)" by (cases os3)
  ultimately have s3: "go_ecdsa_sign_p1_step2 eng h1a pf r2d = (r3, (p1pf, cm), h1b)" by simp
  obtain r4 os4 h2b where "go_ecdsa_sign_p2_step2 eng h2a cm p1pf = (r4, os4, h2b)"
    by (cases "go_ecdsa_sign_p2_step2 eng h2a cm p1pf")
  moreover obtain ek af where "os4 = (ek, af)" by (cases os4)
  ultimately have s4: "go_ecdsa_sign_p2_step2 eng h2a cm p1pf = (r4, (ek, af), h2b)" by simp
  obtain r5 os5 h1c where "go_ecdsa_sign_p1_step3 eng h1b ek af = (r5, os5, h1c)"
    by (cases "go_ecdsa_sign_p1_step3 eng h1b ek af")
  moreover obtain sr ss where "os5 = (sr, ss)" by (cases os5)
  ultimately have s5: "go_ecdsa_sign_p1_step3 eng h1b ek af = (r5, (sr, ss), h1c)" by simp
  have z: "r1 = 0 \<and> r2 = 0 \<and> r3 = 0 \<and> r4 = 0 \<and> r5 = 0"
    using run by (simp add: ecdsa_sign_run_def s1 s2 s3 s4 s5 Let_def split: if_splits)
  then have full: "ecdsa_sign_run eng p1_sign_handle p2_sign_handle =
    (Inr (sr, ss),
     [call P1 ''go_ecdsa_sign_step1'' [] [c],
      call P2 ''go_ecdsa_sign_p2_step1'' [c] [pf, r2d],
      call P1 ''go_ecdsa_sign_p1_step2'' [pf, r2d] [p1pf, cm],
      call P2 ''go_ecdsa_sign_p2_step2'' [cm, p1pf] [ek, af],
      call P1 ''go_ecdsa_sign_p1_step3'' [ek, af] [sr, ss]])"
    by (simp add: ecdsa_sign_run_def s1 s2 s3 s4 s5 Let_def)
  have "(Inr (signature_r, signature_s) :: int + string \<times> string, tr) =
    (Inr (sr, ss),
     [call P1 ''go_ecdsa_sign_step1'' [] [c],
      call P2 ''go_ecdsa_sign_p2_step1'' [c] [pf, r2d],
      call P1 ''go_ecdsa_sign_p1_step2'' [pf, r2d] [p1pf, cm],
      call P2 ''go_ecdsa_sign_p2_step2'' [cm, p1pf] [ek, af],
      call P1 ''go_ecdsa_sign_p1_step3'' [ek, af] [sr, ss]])"
    by (rule trans[OF sym[OF run] full])
  then have e: "signature_r = sr" "signature_s = ss"
    "tr = [call P1 ''go_ecdsa_sign_step1'' [] [c],
      call P2 ''go_ecdsa_sign_p2_step1'' [c] [pf, r2d],
      call P1 ''go_ecdsa_sign_p1_step2'' [pf, r2d] [p1pf, cm],
      call P2 ''go_ecdsa_sign_p2_step2'' [cm, p1pf] [ek, af],
      call P1 ''go_ecdsa_sign_p1_step3'' [ek, af] [sr, ss]]"
    by simp_all
  show ?R
    apply (rule exI[of _ c], rule exI[of _ h1a], rule exI[of _ pf], rule exI[of _ r2d])
    apply (rule exI[of _ h2a], rule exI[of _ p1pf], rule exI[of _ cm], rule exI[of _ h1b])
    apply (rule exI[of _ ek], rule exI[of _ af], rule exI[of _ h2b], rule exI[of _ h1c])
    using s1 s2 s3 s4 s5 z e by simp
next
  assume ?R
  then obtain c h1a pf r2d h2a p1pf cm h1b ek af h2b h1c where
    s: "go_ecdsa_sign_step1 eng p1_sign_handle = (0, c, h1a)"
       "go_ecdsa_sign_p2_step1 eng p2_sign_handle c = (0, (pf, r2d), h2a)"
       "go_ecdsa_sign_p1_step2 eng h1a pf r2d = (0, (p1pf, cm), h1b)"
       "go_ecdsa_sign_p2_step2 eng h2a cm p1pf = (0, (ek, af), h2b)"
       "go_ecdsa_sign_p1_step3 eng h1b ek af = (0, (signature_r, signature_s), h1c)"
    and t: "tr = [call P1 ''go_ecdsa_sign_step1'' [] [c],
            call P2 ''go_ecdsa_sign_p2_step1'' [c] [pf, r2d],
            call P1 ''go_ecdsa_sign_p1_step2'' [pf, r2d] [p1pf, cm],
            call P2 ''go_ecdsa_sign_p2_step2'' [cm, p1pf] [ek, af],
            call P1 ''go_ecdsa_sign_p1_step3'' [ek, af] [signature_r, signature_s]]"
    by blast
  show ?L by (simp add: ecdsa_sign_run_def s t Let_def)
qed

theorem ecdsa_sign_sequence_witness:
  "ecdsa_sign_run sample_engine 10 20 =
     (Inr (''R'', ''S''),
      [call P1 ''go_ecdsa_sign_step1'' [] [''commit''],
       call P2 ''go_ecdsa_sign_p2_step1'' [''commit''] [''proof2'', ''r2''],
       call P1 ''go_ecdsa_sign_p1_step2'' [''proof2'', ''r2''] [''proof1'', ''cmtd''],
       call P2 ''go_ecdsa_sign_p2_step2'' [''cmtd'', ''proof1''] [''ek'', ''affine''],
       call P1 ''go_ecdsa_sign_p1_step3'' [''ek'', ''affine''] [''R'', ''S'']])"
proof (rule iffD2[OF ecdsa_sign_sequence])
  show "\<exists>p1_commit_data h1a p2_proof_data p2_r2_data h2a p1_proof_data p1_cmtd_data h1b
      p2_ek_data p2_affine_proof_data h2b h1c.
      go_ecdsa_sign_step1 sample_engine 10 = (0, p1_commit_data, h1a) \<and>
      go_ecdsa_sign_p2_step1 sample_engine 20 p1_commit_data
        = (0, (p2_proof_data, p2_r2_data), h2a) \<and>
      go_ecdsa_sign_p1_step2 sample_engine h1a p2_proof_data p2_r2_data
        = (0, (p1_proof_data, p1_cmtd_data), h1b) \<and>
      go_ecdsa_sign_p2_step2 sample_engine h2a p1_cmtd_data p1_proof_data
        = (0, (p2_ek_data, p2_affine_proof_data), h2b) \<and>
      go_ecdsa_sign_p1_step3 sample_engine h1b p2_ek_data p2_affine_proof_data
        = (0, (''R'', ''S''), h1c) \<and>
      [call P1 ''go_ecdsa_sign_step1'' [] [''commit''],
       call P2 ''go_ecdsa_sign_p2_step1'' [''commit''] [''proof2'', ''r2''],
       call P1 ''go_ecdsa_sign_p1_step2'' [''proof2'', ''r2''] [''proof1'', ''cmtd''],
       call P2 ''go_ecdsa_sign_p2_step2'' [''cmtd'', ''proof1''] [''ek'', ''affine''],
       call P1 ''go_ecdsa_sign_p1_step3'' [''ek'', ''affine''] [''R'', ''S'']]
      = [call P1 ''go_ecdsa_sign_step1'' [] [p1_commit_data],
            call P2 ''go_ecdsa_sign_p2_step1'' [p1_commit_data] [p2_proof_data, p2_r2_data],
            call P1 ''go_ecdsa_sign_p1_step2'' [p2_proof_data, p2_r2_data]
              [p1_proof_data, p1_cmtd_data],
            call P2 ''go_ecdsa_sign_p2_step2'' [p1_cmtd_data, p1_proof_data]
              [p2_ek_data, p2_affine_proof_data],
            call P1 ''go_ecdsa_sign_p1_step3'' [p2_ek_data, p2_affine_proof_data]
              [''R'', ''S'']]"
    apply (rule exI[of _ "''commit''"], rule exI[of _ 11], rule exI[of _ "''proof2''"])
    apply (rule exI[of _ "''r2''"], rule exI[of _ 21], rule exI[of _ "''proof1''"])
    apply (rule exI[of _ "''cmtd''"], rule exI[of _ 12], rule exI[of _ "''ek''"])
    apply (rule exI[of _ "''affine''"], rule exI[of _ 22], rule exI[of _ 13])
    by (simp add: sample_engine_def)
qed

text \<open>
  C9. Every string returned by the aggregation routine (in \<^verbatim>\<open>test_corrected_keygen.c\<close>
  and in \<^verbatim>\<open>test_refresh.c\<close>) begins with \<open>[\<close> and ends with \<open>]\<close>; every element
  between the brackets is a brace-balanced span that begins with an opening and ends with
  a closing brace; and when nothing can be extracted from any peer's output the result is
  exactly \<open>[]\<close>.
\<close>

theorem aggregation_well_formed:
  assumes "r = convert_round1_to_messages outs p \<or> r = convert_round_to_messages outs p"
  shows "hd r = CHR ''['' \<and> last r = CHR '']'' \<and>
         r = ''['' @ join_comma (peer_messages outs p) @ '']'' \<and>
         (\<forall>s \<in> set (peer_messages outs p).
            balanced_span s \<and> hd s = CHR ''{'' \<and> last s = CHR ''}'') \<and>
         ((\<forall>i \<in> {0..<length outs}.
             int i + 1 \<noteq> p \<longrightarrow> extract_message (outs ! i) p = None) \<longrightarrow> r = ''[]'')"
proof -
  have r: "r = ''['' @ join_comma (peer_messages outs p) @ '']''"
    using assms by (auto simp: convert_round_to_messages_eq convert_eq_peer_messages)
  have b: "\<forall>s \<in> set (peer_messages outs p).
            balanced_span s \<and> hd s = CHR ''{'' \<and> last s = CHR ''}''"
  proof
    fix s assume "s \<in> set (peer_messages outs p)"
    then have bs: "balanced_span s" by (rule peer_messages_balanced)
    then show "balanced_span s \<and> hd s = CHR ''{'' \<and> last s = CHR ''}''"
      using balanced_span_last[OF bs] by (simp add: balanced_span_def)
  qed
  have e: "(\<forall>i \<in> {0..<length outs}.
             int i + 1 \<noteq> p \<longrightarrow> extract_message (outs ! i) p = None) \<longrightarrow> r = ''[]''"
  proof
    assume n: "\<forall>i \<in> {0..<length outs}.
             int i + 1 \<noteq> p \<longrightarrow> extract_message (outs ! i) p = None"
    have "peer_messages outs p = []"
      unfolding peer_messages_def List.map_filter_def using n by (auto simp: filter_empty_conv)
    then show "r = ''[]''" using r by simp
  qed
  from r b e show ?thesis by simp
qed

theorem aggregation_well_formed_witness:
  \<open>hd (convert_round_to_messages
         [''{"2":{"a":1},"3":{"b":2}}'', ''{"1":{"c":3},"3":{"d":4}}'',
          ''{"1":{"e":5},"2":{"f":6}}''] 1) = CHR ''['' \<and>
    balanced_span ''{"c":3}'' \<and> balanced_span ''{"e":5}'' \<and>
    convert_round1_to_messages [''{"2":{"a":1}}'', ''{"3":{"d":4}}'', ''{"2":{"f":6}}''] 1 = ''[]''\<close>
proof -
  let ?outs = \<open>[''{"2":{"a":1},"3":{"b":2}}'', ''{"1":{"c":3},"3":{"d":4}}'',
          ''{"1":{"e":5},"2":{"f":6}}'']\<close>
  let ?none = \<open>[''{"2":{"a":1}}'', ''{"3":{"d":4}}'', ''{"2":{"f":6}}'']\<close>
  have pm: \<open>peer_messages ?outs 1 = [''{"c":3}'', ''{"e":5}'']\<close>
    by (simp add: peer_messages_def eval_simps)
  have a: "hd (convert_round_to_messages ?outs 1) = CHR ''[''"
    and b: "\<forall>s \<in> set (peer_messages ?outs 1). balanced_span s \<and> hd s = CHR ''{'' \<and> last s = CHR ''}''"
    using aggregation_well_formed[of "convert_round_to_messages ?outs 1" ?outs 1] by blast+
  have n: "\<forall>i \<in> {0..<length ?none}. int i + 1 \<noteq> 1 \<longrightarrow> extract_message (?none ! i) 1 = None"
    by (simp add: eval_simps atLeastLessThan_def lessThan_def atLeast_def Ball_def less_Suc_eq nth_Cons')
  have c: "convert_round1_to_messages ?none 1 = ''[]''"
    using aggregation_well_formed[of "convert_round1_to_messages ?none 1" ?none 1] n by blast
  from a b c pm show ?thesis by simp
qed

text \<open>
  C10. The bytes written stay within \<open>1000 + \<Sum> 2 * round1_lens[i]\<close> as a number
  (\<open>bytes_written_bound\<close>), but \<^verbatim>\<open>total_size\<close> is a C \<^verbatim>\<open>int\<close>, and the routine
  passes to \<^verbatim>\<open>malloc\<close> what is left of the sum after wrap-around. Below, two of three
  outputs are envelopes of \<open>2 ^ 30\<close> bytes with truthful lengths: \<^verbatim>\<open>total_size\<close> is
  1000, and the routine writes 2147483640 bytes.
\<close>

theorem allocation_overflow:
  "int (length big_output) = sint (1073741824 :: 32 word) \<and>
   sint (total_size [0, 1073741824, 1073741824]) = 1000 \<and>
   bytes_written [[], big_output, big_output] 1 = 2147483640"
proof -
  have a: "int (length big_output) = sint (1073741824 :: 32 word)"
    by (simp add: big_output_def)
  have b: "sint (total_size [0, 1073741824, 1073741824]) = 1000"
    by (simp add: total_size_def)
  have \<open>peer_messages [[], big_output, big_output] 1
          = [''{"a":"'' @ replicate 1073741810 CHR ''a'' @ ''"}'',
             ''{"a":"'' @ replicate 1073741810 CHR ''a'' @ ''"}'']\<close>
    by (simp add: peer_messages_def List.map_filter_def extract_big_output)
  then have c: "bytes_written [[], big_output, big_output] 1 = 2147483640"
    by (simp add: bytes_written_def convert_eq_peer_messages)
  from a b c show ?thesis by simp
qed

end
